theory Spec2Isabelle
  imports Main
begin

section \<open>Python strings\<close>

text \<open>
  A Python \<open>str\<close> is modelled as a \<open>string\<close>; a character stands for the code point
  of the same number, so the model covers the code points below 256.
\<close>

definition isspace :: "char \<Rightarrow> bool" where
  \<comment> \<open>the characters \<open>str.isspace\<close> accepts: U+0009..U+000D, U+001C..U+0020, U+0085, U+00A0\<close>
  "isspace c = (let n = (of_char c :: nat) in
     (9 \<le> n \<and> n \<le> 13) \<or> (28 \<le> n \<and> n \<le> 32) \<or> n = 133 \<or> n = 160)"

definition isdigit_char :: "char \<Rightarrow> bool" where
  \<comment> \<open>the characters \<open>str.isdigit\<close> accepts: 0..9 and the superscripts U+00B2, U+00B3, U+00B9\<close>
  "isdigit_char c = (let n = (of_char c :: nat) in
     (48 \<le> n \<and> n \<le> 57) \<or> n = 178 \<or> n = 179 \<or> n = 185)"

definition isdigit :: "string \<Rightarrow> bool" where
  \<comment> \<open>\<open>str.isdigit()\<close>: at least one character, and all of them digits\<close>
  "isdigit s = (s \<noteq> [] \<and> list_all isdigit_char s)"

definition strip :: "string \<Rightarrow> string" where
  \<comment> \<open>\<open>str.strip()\<close> without argument\<close>
  "strip s = rev (dropWhile isspace (rev (dropWhile isspace s)))"

definition endswith :: "string \<Rightarrow> string \<Rightarrow> bool" where
  "endswith s suffix = (take (length suffix) (rev s) = rev suffix)"

fun split_str :: "char \<Rightarrow> string \<Rightarrow> string list" where
  \<comment> \<open>\<open>s.split(sep)\<close> for a separator of one character\<close>
  "split_str sep [] = [[]]"
| "split_str sep (c # cs) =
     (if c = sep then [] # split_str sep cs
      else (case split_str sep cs of [] \<Rightarrow> [[c]] | s # ss \<Rightarrow> (c # s) # ss))"

fun join_str :: "char \<Rightarrow> string list \<Rightarrow> string" where
  \<comment> \<open>\<open>sep.join(parts)\<close>, used to say what a segmentation of a string is\<close>
  "join_str sep [] = []"
| "join_str sep [x] = x"
| "join_str sep (x # y # ys) = x @ sep # join_str sep (y # ys)"

section \<open>Validators\<close>

definition validate_rules_group :: "string \<Rightarrow> bool" where
  "validate_rules_group rules_group =
     (if rules_group = [] then False
      else list_all (\<lambda>group. endswith (strip group) '','') (split_str CHR ''|'' rules_group))"

definition validate_rules_id :: "string \<Rightarrow> bool" where
  "validate_rules_id rules_id =
     (if rules_id = [] then False
      else list_all (\<lambda>id. isdigit (strip id)) (split_str CHR '','' rules_id))"

definition validate_level :: "int \<Rightarrow> bool" where
  "validate_level level = (1 \<le> level \<and> level \<le> 16)"

section \<open>Values of update mappings\<close>

text \<open>
  The update mappings are \<open>Dict[str, Any]\<close>. The values modelled are the strings and
  the integers; a mapping is an association list in insertion order, which is the order
  in which \<open>updates.items()\<close> yields its entries. A key is a plain tag name: \<open>find\<close>
  would read a key with path syntax as a path expression, which is outside the model.
  \<open>int\<close> and \<open>str\<close> are modelled without the interpreter's limit on the number of
  digits of a conversion.
\<close>

datatype pyval = PStr string | PInt int

datatype error =
    MissingCommand "string option"  \<comment> \<open>the \<open>ValueError\<close> raised by \<open>_validate_commands\<close>, with the text it names\<close>
  | ValueError                      \<comment> \<open>raised by \<open>int(value)\<close> and by \<open>Element.remove\<close>\<close>
  | TypeError                       \<comment> \<open>raised by \<open>ET.SubElement(None, tag)\<close>\<close>
  | AttributeError                  \<comment> \<open>raised by \<open>value.split\<close> on an integer\<close>

definition digit_char :: "nat \<Rightarrow> char" where
  "digit_char d = ''0123456789'' ! d"

function nat_digits :: "nat \<Rightarrow> string" where
  "nat_digits n = (if n < 10 then [digit_char n] else nat_digits (n div 10) @ [digit_char (n mod 10)])"
  by pat_completeness auto
termination
  by (relation "measure (\<lambda>n. n)") auto

definition str_int :: "int \<Rightarrow> string" where
  \<comment> \<open>\<open>str(i)\<close> for an integer\<close>
  "str_int i = (if i < 0 then CHR ''-'' # nat_digits (nat (- i)) else nat_digits (nat i))"

fun py_str :: "pyval \<Rightarrow> string" where
  "py_str (PStr s) = s"
| "py_str (PInt i) = str_int i"

definition digit_value :: "char \<Rightarrow> int option" where
  "digit_value c = (let n = (of_char c :: nat) in
     if 48 \<le> n \<and> n \<le> 57 then Some (int n - 48) else None)"

fun parse_digits :: "int \<Rightarrow> string \<Rightarrow> int option" where
  \<comment> \<open>the rest of a decimal literal after a digit: digits, single underscores between them\<close>
  "parse_digits acc [] = Some acc"
| "parse_digits acc (c # cs) =
     (if c = CHR ''_'' then
        (case cs of
           [] \<Rightarrow> None
         | d # ds \<Rightarrow> (case digit_value d of None \<Rightarrow> None
                      | Some v \<Rightarrow> parse_digits (10 * acc + v) ds))
      else (case digit_value c of None \<Rightarrow> None
            | Some v \<Rightarrow> parse_digits (10 * acc + v) cs))"

definition parse_unsigned :: "string \<Rightarrow> int option" where
  "parse_unsigned s = (case s of [] \<Rightarrow> None
     | c # cs \<Rightarrow> (case digit_value c of None \<Rightarrow> None | Some v \<Rightarrow> parse_digits v cs))"

definition isspace_int :: "char \<Rightarrow> bool" where
  \<comment> \<open>the whitespace \<open>int\<close> skips: U+0009..U+000D, U+0020, U+0085, U+00A0. Unlike
      \<open>str.strip\<close> it does not skip U+001C..U+001F\<close>
  "isspace_int c = (let n = (of_char c :: nat) in
     (9 \<le> n \<and> n \<le> 13) \<or> n = 32 \<or> n = 133 \<or> n = 160)"

definition int_strip :: "string \<Rightarrow> string" where
  "int_strip s = rev (dropWhile isspace_int (rev (dropWhile isspace_int s)))"

definition int_of_str :: "string \<Rightarrow> error + int" where
  \<comment> \<open>\<open>int(s)\<close> in base 10: surrounding whitespace, an optional sign, a decimal literal\<close>
  "int_of_str s =
     (case int_strip s of
        [] \<Rightarrow> Inl ValueError
      | c # cs \<Rightarrow>
          (if c = CHR ''-'' then (case parse_unsigned cs of None \<Rightarrow> Inl ValueError | Some n \<Rightarrow> Inr (- n))
           else if c = CHR ''+'' then (case parse_unsigned cs of None \<Rightarrow> Inl ValueError | Some n \<Rightarrow> Inr n)
           else (case parse_unsigned (c # cs) of None \<Rightarrow> Inl ValueError | Some n \<Rightarrow> Inr n)))"

fun py_int :: "pyval \<Rightarrow> error + int" where
  "py_int (PStr s) = int_of_str s"
| "py_int (PInt i) = Inr i"

fun validate_rules_group_any :: "pyval \<Rightarrow> error + bool" where
  \<comment> \<open>\<open>_validate_rules_group\<close> called on a value of an update mapping: the integer 0 is
      falsy, any other integer has no \<open>split\<close>\<close>
  "validate_rules_group_any (PStr s) = Inr (validate_rules_group s)"
| "validate_rules_group_any (PInt i) = (if i = 0 then Inr False else Inl AttributeError)"

fun validate_rules_id_any :: "pyval \<Rightarrow> error + bool" where
  "validate_rules_id_any (PStr s) = Inr (validate_rules_id s)"
| "validate_rules_id_any (PInt i) = (if i = 0 then Inr False else Inl AttributeError)"

section \<open>Element trees\<close>

text \<open>
  An \<open>xml.etree.ElementTree.Element\<close> with its tag, its text (\<open>None\<close> when the element
  has none) and its children in order. Attributes and tails are left out: no operation
  below reads or writes them. An element of a tree is identified by its path, the list of
  child indices leading to it from the synthetic root.
\<close>

datatype elem = Elem (tag: string) (etext: "string option") (children: "elem list")

fun find_idx :: "string \<Rightarrow> elem list \<Rightarrow> nat option" where
  \<comment> \<open>the position of the first element with the given tag\<close>
  "find_idx t [] = None"
| "find_idx t (c # cs) = (if tag c = t then Some 0 else map_option Suc (find_idx t cs))"

definition find_child :: "string \<Rightarrow> elem \<Rightarrow> elem option" where
  \<comment> \<open>\<open>element.find(tag)\<close> for a plain tag: the first direct child with that tag\<close>
  "find_child t e = List.find (\<lambda>c. tag c = t) (children e)"

definition findall :: "string \<Rightarrow> elem \<Rightarrow> (nat \<times> elem) list" where
  \<comment> \<open>\<open>element.findall(tag)\<close> for a plain tag: the direct children with that tag, each with its index\<close>
  "findall t e = filter (\<lambda>(i, c). tag c = t) (enumerate 0 (children e))"

fun iter_at :: "nat list \<Rightarrow> elem \<Rightarrow> (nat list \<times> elem) list"
  and iter_list :: "nat list \<Rightarrow> nat \<Rightarrow> elem list \<Rightarrow> (nat list \<times> elem) list" where
  \<comment> \<open>\<open>element.iter()\<close>: the element at path \<open>p\<close> and its descendants in document order\<close>
  "iter_at p (Elem t x cs) = (p, Elem t x cs) # iter_list p 0 cs"
| "iter_list p i [] = []"
| "iter_list p i (c # cs) = iter_at (p @ [i]) c @ iter_list p (Suc i) cs"

definition findall_desc :: "string \<Rightarrow> elem \<Rightarrow> (nat list \<times> elem) list" where
  \<comment> \<open>\<open>root.findall('.//tag')\<close>: every descendant with that tag, the root itself excluded\<close>
  "findall_desc t root = filter (\<lambda>(p, e). tag e = t) (iter_list [] 0 (children root))"

primrec modify_at :: "nat list \<Rightarrow> (elem \<Rightarrow> elem) \<Rightarrow> elem \<Rightarrow> elem" where
  \<comment> \<open>an in-place change of the element at a path\<close>
  "modify_at [] f e = f e"
| "modify_at (i # p) f e =
     Elem (tag e) (etext e) ((children e)[i := modify_at p f (children e ! i)])"

definition append_child :: "elem \<Rightarrow> elem \<Rightarrow> elem" where
  "append_child c e = Elem (tag e) (etext e) (children e @ [c])"

definition set_text :: "string \<Rightarrow> elem \<Rightarrow> elem" where
  "set_text v e = Elem (tag e) (Some v) (children e)"

definition delete_nth :: "nat \<Rightarrow> elem \<Rightarrow> elem" where
  "delete_nth i e = Elem (tag e) (etext e) (take i (children e) @ drop (Suc i) (children e))"

definition remove :: "nat list \<Rightarrow> elem \<Rightarrow> error + elem" where
  \<comment> \<open>\<open>root.remove(x)\<close> for the element \<open>x\<close> at path \<open>p\<close>: \<open>Element.remove\<close> compares by
      identity with the direct children only, and raises \<open>ValueError\<close> when \<open>x\<close> is none of them\<close>
  "remove p root =
     (case p of
        [i] \<Rightarrow> if i < length (children root) then Inr (delete_nth i root) else Inl ValueError
      | _ \<Rightarrow> Inl ValueError)"

definition write_leaf :: "string \<Rightarrow> string \<Rightarrow> elem \<Rightarrow> elem" where
  \<comment> \<open>the body of the update loops: set the text of the first child with that tag, or
      append a new child with that tag and text\<close>
  "write_leaf t v e =
     (case find_idx t (children e) of
        Some i \<Rightarrow> modify_at [i] (set_text v) e
      | None \<Rightarrow> append_child (Elem t (Some v) []) e)"

fun setitem :: "'k \<Rightarrow> 'v \<Rightarrow> ('k \<times> 'v) list \<Rightarrow> ('k \<times> 'v) list" where
  \<comment> \<open>\<open>d[k] = v\<close> on a dict kept in insertion order\<close>
  "setitem k v [] = [(k, v)]"
| "setitem k v ((k', v') # d) = (if k' = k then (k, v) # d else (k', v') # setitem k v d)"

definition fields_of :: "elem \<Rightarrow> (string \<times> string option) list" where
  \<comment> \<open>the dict built from the children of one element: tag to text\<close>
  "fields_of e = foldl (\<lambda>info element. setitem (tag element) (etext element) info) [] (children e)"

definition has_field_text :: "string \<Rightarrow> string option \<Rightarrow> elem \<Rightarrow> bool" where
  \<comment> \<open>\<open>e.find(field) is not None and e.find(field).text == v\<close>\<close>
  "has_field_text field v e = (case find_child field e of None \<Rightarrow> False | Some c \<Rightarrow> etext c = v)"

section \<open>OSSECConfigManager\<close>

fun organize_loop :: "nat \<Rightarrow> nat \<Rightarrow> (nat \<times> elem) list \<Rightarrow> elem \<Rightarrow> elem" where
  \<comment> \<open>the loop over the extra blocks. \<open>i0\<close> is the index of the primary block; an extra
      block found at index \<open>j\<close> sits at index \<open>j - k\<close> once \<open>k\<close> blocks before it are removed\<close>
  "organize_loop i0 k [] root = root"
| "organize_loop i0 k ((j, extra_ossec_config) # rest) root =
     organize_loop i0 (Suc k) rest
       (delete_nth (j - k)
          (modify_at [i0]
             (\<lambda>primary. foldl (\<lambda>p child. append_child child p) primary (children extra_ossec_config))
             root))"

definition organize_ossec_config :: "elem \<Rightarrow> elem" where
  "organize_ossec_config root =
     (let ossec_config_elements = findall ''ossec_config'' root in
      if length ossec_config_elements > 1
      then organize_loop (fst (hd ossec_config_elements)) 0 (tl ossec_config_elements) root
      else root)"

section \<open>ActiveResponseManager\<close>

definition location_types :: "string list" where
  "location_types = [''local'', ''server'', ''defined-agent'', ''all'']"

definition command_exists :: "string option \<Rightarrow> elem \<Rightarrow> bool" where
  "command_exists name root =
     list_ex (\<lambda>(p, command). has_field_text ''name'' name command) (findall_desc ''command'' root)"

definition active_response_exists :: "string \<Rightarrow> elem \<Rightarrow> bool" where
  "active_response_exists command root =
     list_ex (\<lambda>(p, ar). has_field_text ''command'' (Some command) ar)
       (findall_desc ''active-response'' root)"

fun validate_loop :: "elem \<Rightarrow> elem list \<Rightarrow> error + unit" where
  "validate_loop root [] = Inr ()"
| "validate_loop root (ar # ars) =
     (case find_child ''command'' ar of
        Some command \<Rightarrow>
          if \<not> command_exists (etext command) root then Inl (MissingCommand (etext command))
          else validate_loop root ars
      | None \<Rightarrow> validate_loop root ars)"

definition validate_commands :: "elem \<Rightarrow> error + unit" where
  "validate_commands root = validate_loop root (map snd (findall_desc ''active-response'' root))"

definition construct :: "elem \<Rightarrow> error + elem" where
  \<comment> \<open>\<open>ActiveResponseManager.__init__\<close> from the tree that \<open>_parse_with_single_root\<close>
      returns: the parent's constructor normalises the blocks, then the commands are
      validated. Reading and parsing the file are outside the model.\<close>
  "construct parsed =
     (let root = organize_ossec_config parsed in
      case validate_commands root of Inl e \<Rightarrow> Inl e | Inr _ \<Rightarrow> Inr root)"

definition get_commands :: "elem \<Rightarrow> (string \<times> string option) list list" where
  "get_commands root = map (\<lambda>(p, command). fields_of command) (findall_desc ''command'' root)"

definition get_active_responses :: "elem \<Rightarrow> (string \<times> string option) list list" where
  "get_active_responses root = map (\<lambda>(p, ar). fields_of ar) (findall_desc ''active-response'' root)"

definition new_command :: "string \<Rightarrow> string \<Rightarrow> bool \<Rightarrow> elem" where
  "new_command name executable timeout_allowed =
     Elem ''command'' None
       [Elem ''name'' (Some name) [],
        Elem ''executable'' (Some executable) [],
        Elem ''timeout_allowed'' (Some (if timeout_allowed then ''yes'' else ''no'')) []]"

definition add_command :: "string \<Rightarrow> string \<Rightarrow> bool \<Rightarrow> elem \<Rightarrow> error + bool \<times> elem" where
  "add_command name executable timeout_allowed root =
     (if command_exists (Some name) root then Inr (False, root)
      else (case find_idx ''ossec_config'' (children root) of
              None \<Rightarrow> Inl TypeError
            | Some i \<Rightarrow>
                Inr (True, modify_at [i] (append_child (new_command name executable timeout_allowed)) root)))"

definition optional_leaf :: "string \<Rightarrow> string option \<Rightarrow> elem list" where
  "optional_leaf t v = (case v of None \<Rightarrow> [] | Some x \<Rightarrow> [Elem t (Some x) []])"

definition new_ar :: "string \<Rightarrow> string \<Rightarrow> int option \<Rightarrow> int option \<Rightarrow> string option
    \<Rightarrow> string option \<Rightarrow> string option \<Rightarrow> elem" where
  "new_ar command location level timeout agent_id rules_group rules_id =
     Elem ''active-response'' None
       ([Elem ''command'' (Some command) [], Elem ''location'' (Some location) []]
        @ optional_leaf ''level'' (map_option str_int level)
        @ optional_leaf ''timeout'' (map_option str_int timeout)
        @ optional_leaf ''agent_id'' agent_id
        @ optional_leaf ''rules_group'' rules_group
        @ optional_leaf ''rules_id'' rules_id)"

definition add_active_response :: "string \<Rightarrow> string \<Rightarrow> int option \<Rightarrow> int option \<Rightarrow> string option
    \<Rightarrow> string option \<Rightarrow> string option \<Rightarrow> elem \<Rightarrow> error + bool \<times> elem" where
  "add_active_response command location level timeout agent_id rules_group rules_id root =
     (if \<not> command_exists (Some command) root then Inr (False, root)
      else if location \<notin> set location_types then Inr (False, root)
      else if location = ''defined-agent'' \<and> (agent_id = None \<or> agent_id = Some []) then Inr (False, root)
      else if (case level of None \<Rightarrow> False | Some l \<Rightarrow> \<not> validate_level l) then Inr (False, root)
      else if (case rules_group of None \<Rightarrow> False | Some g \<Rightarrow> \<not> validate_rules_group g) then Inr (False, root)
      else if (case rules_id of None \<Rightarrow> False | Some i \<Rightarrow> \<not> validate_rules_id i) then Inr (False, root)
      else (case find_idx ''ossec_config'' (children root) of
              None \<Rightarrow> Inl TypeError
            | Some i \<Rightarrow>
                Inr (True,
                  modify_at [i]
                    (append_child (new_ar command location level timeout agent_id rules_group rules_id))
                    root)))"

fun apply_ar_updates :: "nat list \<Rightarrow> (string \<times> pyval) list \<Rightarrow> elem \<Rightarrow> error + bool \<times> elem" where
  \<comment> \<open>the loop over \<open>updates.items()\<close> on the active response at path \<open>p\<close>\<close>
  "apply_ar_updates p [] root = Inr (True, root)"
| "apply_ar_updates p ((t, v) # rest) root =
     (let continue = apply_ar_updates p rest (modify_at p (write_leaf t (py_str v)) root) in
      if t = ''level'' then
        (case py_int v of
           Inl e \<Rightarrow> Inl e
         | Inr l \<Rightarrow> if \<not> validate_level l then Inr (False, root) else continue)
      else if t = ''rules_group'' then
        (case validate_rules_group_any v of
           Inl e \<Rightarrow> Inl e
         | Inr ok \<Rightarrow> if \<not> ok then Inr (False, root) else continue)
      else if t = ''rules_id'' then
        (case validate_rules_id_any v of
           Inl e \<Rightarrow> Inl e
         | Inr ok \<Rightarrow> if \<not> ok then Inr (False, root) else continue)
      else continue)"

definition first_with :: "string \<Rightarrow> string \<Rightarrow> string option \<Rightarrow> elem \<Rightarrow> (nat list \<times> elem) option" where
  \<comment> \<open>the first descendant of the given kind whose field has the given text\<close>
  "first_with kind field v root =
     List.find (\<lambda>(p, e). has_field_text field v e) (findall_desc kind root)"

definition update_active_response :: "string \<Rightarrow> (string \<times> pyval) list \<Rightarrow> elem \<Rightarrow> error + bool \<times> elem" where
  "update_active_response command updates root =
     (case first_with ''active-response'' ''command'' (Some command) root of
        Some (p, ar) \<Rightarrow> apply_ar_updates p updates root
      | None \<Rightarrow> Inr (False, root))"

definition remove_active_response :: "string \<Rightarrow> elem \<Rightarrow> error + bool \<times> elem" where
  "remove_active_response command root =
     (case first_with ''active-response'' ''command'' (Some command) root of
        Some (p, ar) \<Rightarrow> (case remove p root of Inl e \<Rightarrow> Inl e | Inr root' \<Rightarrow> Inr (True, root'))
      | None \<Rightarrow> Inr (False, root))"

definition remove_command :: "string \<Rightarrow> elem \<Rightarrow> error + bool \<times> elem" where
  "remove_command name root =
     (case first_with ''command'' ''name'' (Some name) root of
        Some (p, command) \<Rightarrow> (case remove p root of Inl e \<Rightarrow> Inl e | Inr root' \<Rightarrow> Inr (True, root'))
      | None \<Rightarrow> Inr (False, root))"

section \<open>The words of the specification\<close>

definition segmentation :: "char \<Rightarrow> string \<Rightarrow> string list \<Rightarrow> bool" where
  \<comment> \<open>\<open>segs\<close> are the segments of \<open>s\<close> separated by \<open>sep\<close>\<close>
  "segmentation sep s segs =
     (segs \<noteq> [] \<and> (\<forall>g \<in> set segs. sep \<notin> set g) \<and> join_str sep segs = s)"

definition spec_rules_id :: "string \<Rightarrow> bool" where
  \<comment> \<open>the rules-id rule in the words of the specification: non-empty, and every
      comma-separated segment, trimmed, consists of digits only\<close>
  "spec_rules_id s =
     (s \<noteq> [] \<and> list_all (\<lambda>seg. list_all isdigit_char (strip seg)) (split_str CHR '','' s))"

section \<open>Terms of the statements\<close>

definition merged_block :: "elem \<Rightarrow> elem list \<Rightarrow> elem" where
  \<comment> \<open>the primary block \<open>p\<close> after the children of the later blocks among \<open>suf\<close> are appended\<close>
  "merged_block p suf =
     Elem ''ossec_config'' (etext p)
       (children p @ concat (map children (filter (\<lambda>c. tag c = ''ossec_config'') suf)))"

definition three_blocks :: elem where
  "three_blocks = Elem ''root'' None
     [Elem ''note'' None [],
      Elem ''ossec_config'' None [Elem ''global'' None []],
      Elem ''extra'' None [],
      Elem ''ossec_config'' None [Elem ''command'' None [], Elem ''syscheck'' None []],
      Elem ''ossec_config'' None [Elem ''rootcheck'' None []]]"

definition with_appended :: "nat \<Rightarrow> elem \<Rightarrow> elem \<Rightarrow> elem" where
  \<comment> \<open>the root after \<open>node\<close> is appended to the children of its \<open>i\<close>-th child\<close>
  "with_appended i node root =
     Elem (tag root) (etext root)
       ((children root)[i := Elem (tag (children root ! i)) (etext (children root ! i))
                               (children (children root ! i) @ [node])])"

definition rejected :: "string \<Rightarrow> string \<Rightarrow> int option \<Rightarrow> string option \<Rightarrow> string option
    \<Rightarrow> string option \<Rightarrow> elem \<Rightarrow> bool" where
  \<comment> \<open>some validation of \<open>add_active_response\<close> fails, in the words of the specification\<close>
  "rejected command location level agent_id rules_group rules_id root =
     (\<not> command_exists (Some command) root
      \<or> location \<notin> {''local'', ''server'', ''defined-agent'', ''all''}
      \<or> (location = ''defined-agent'' \<and> (agent_id = None \<or> agent_id = Some []))
      \<or> (case level of None \<Rightarrow> False | Some l \<Rightarrow> \<not> (1 \<le> l \<and> l \<le> 16))
      \<or> (case rules_group of None \<Rightarrow> False | Some g \<Rightarrow> \<not> validate_rules_group g)
      \<or> (case rules_id of None \<Rightarrow> False | Some s \<Rightarrow> \<not> validate_rules_id s))"

fun elems :: "elem \<Rightarrow> elem list" where
  \<comment> \<open>an element and its descendants in document order, without their paths\<close>
  "elems (Elem t x cs) = Elem t x cs # concat (map elems cs)"

definition dangling_references :: "elem \<Rightarrow> string option list" where
  \<comment> \<open>the command texts of the active responses whose command is no existing command\<close>
  "dangling_references root =
     concat (map (\<lambda>(p, ar). case find_child ''command'' ar of
                                None \<Rightarrow> []
                              | Some c \<Rightarrow> if command_exists (etext c) root then [] else [etext c])
                 (findall_desc ''active-response'' root))"

definition tagged :: "string \<Rightarrow> elem list \<Rightarrow> elem set" where
  \<comment> \<open>the elements with tag \<open>t\<close> among the given elements and their descendants\<close>
  "tagged t xs = (\<Union>c \<in> set xs. {d \<in> set (elems c). tag d = t})"

text \<open>The documents of the examples.\<close>

definition empty_config :: elem where
  "empty_config = Elem ''root'' None [Elem ''ossec_config'' None []]"

definition custom_block_command :: elem where
  "custom_block_command =
     Elem ''command'' None
       [Elem ''name'' (Some ''custom-block'') [],
        Elem ''executable'' (Some ''custom-block.sh'') [],
        Elem ''timeout_allowed'' (Some ''yes'') []]"

definition custom_block_response :: "string \<Rightarrow> elem" where
  "custom_block_response timeout =
     Elem ''active-response'' None
       [Elem ''command'' (Some ''custom-block'') [],
        Elem ''location'' (Some ''local'') [],
        Elem ''level'' (Some ''10'') [],
        Elem ''timeout'' (Some timeout) [],
        Elem ''rules_id'' (Some ''1001,1002,1003'') []]"

definition with_command :: elem where
  "with_command = Elem ''root'' None [Elem ''ossec_config'' None [custom_block_command]]"

definition with_response :: "string \<Rightarrow> elem" where
  "with_response timeout =
     Elem ''root'' None
       [Elem ''ossec_config'' None [custom_block_command, custom_block_response timeout]]"

definition ghosted :: elem where
  "ghosted =
     Elem ''root'' None
       [Elem ''ossec_config'' None
          [custom_block_command,
           Elem ''active-response'' None
             [Elem ''command'' (Some ''ghost'') [],
              Elem ''location'' (Some ''local'') [],
              Elem ''level'' (Some ''10'') [],
              Elem ''timeout'' (Some ''300'') [],
              Elem ''rules_id'' (Some ''1001,1002,1003'') []]]]"

section \<open>Splitting and trimming\<close>

lemma split_str_not_Nil: "split_str sep s \<noteq> []"
  by (induction s) (auto split: list.splits)

lemma join_split_str: "join_str sep (split_str sep s) = s"
proof (induction s)
  case Nil
  show ?case by simp
next
  case (Cons c cs)
  obtain x xs where sp: "split_str sep cs = x # xs"
    using split_str_not_Nil [of sep cs] by (cases "split_str sep cs") auto
  with Cons show ?case by (cases xs) auto
qed

lemma split_str_sep_free: "g \<in> set (split_str sep s) \<Longrightarrow> sep \<notin> set g"
proof (induction s arbitrary: g)
  case Nil
  then show ?case by simp
next
  case (Cons c cs)
  obtain x xs where sp: "split_str sep cs = x # xs"
    using split_str_not_Nil [of sep cs] by (cases "split_str sep cs") auto
  with Cons show ?case by (auto split: if_splits)
qed

lemma split_str_free: "sep \<notin> set g \<Longrightarrow> split_str sep g = [g]"
  by (induction g) auto

lemma split_str_append: "sep \<notin> set g \<Longrightarrow> split_str sep (g @ sep # r) = g # split_str sep r"
  by (induction g) (auto split: list.splits)

lemma split_join_str:
  "segs \<noteq> [] \<Longrightarrow> \<forall>g \<in> set segs. sep \<notin> set g \<Longrightarrow> split_str sep (join_str sep segs) = segs"
  by (induction sep segs rule: join_str.induct) (auto simp: split_str_free split_str_append)

lemma segmentation_iff: "segmentation sep s segs \<longleftrightarrow> segs = split_str sep s"
  unfolding segmentation_def
  using split_join_str join_split_str split_str_sep_free split_str_not_Nil by metis

lemma dropWhile_keeps_tail:
  "\<not> P c \<Longrightarrow> \<exists>w. dropWhile P (u @ c # v) = w @ c # v"
  by (induction u) auto

lemma endswith_comma: "endswith t '','' \<longleftrightarrow> (\<exists>u. t = u @ '','')"
proof -
  have "endswith t '','' \<longleftrightarrow> (\<exists>r. rev t = CHR '','' # r)"
    by (cases "rev t") (auto simp: endswith_def)
  also have "\<dots> \<longleftrightarrow> (\<exists>u. t = u @ '','')"
    by (metis rev_eq_Cons_iff rev_rev_ident rev.simps)
  finally show ?thesis .
qed

lemma not_space_comma: "\<not> isspace CHR '',''"
  by (simp add: isspace_def)

lemma strip_decomp:
  "\<exists>l r. s = l @ strip s @ r \<and> (\<forall>c \<in> set l. isspace c) \<and> (\<forall>c \<in> set r. isspace c)"
proof -
  let ?d = "dropWhile isspace s"
  have 1: "s = takeWhile isspace s @ ?d" by simp
  have "rev ?d = takeWhile isspace (rev ?d) @ dropWhile isspace (rev ?d)" by simp
  then have "?d = rev (dropWhile isspace (rev ?d)) @ rev (takeWhile isspace (rev ?d))"
    by (metis rev_append rev_rev_ident)
  then have 2: "?d = strip s @ rev (takeWhile isspace (rev ?d))"
    by (simp add: strip_def)
  have 3: "\<forall>c \<in> set (takeWhile isspace s). isspace c"
    by (auto dest: set_takeWhileD)
  have 4: "\<forall>c \<in> set (rev (takeWhile isspace (rev ?d))). isspace c"
    by (auto dest: set_takeWhileD)
  from 1 2 3 4 show ?thesis by metis
qed

lemma strip_sandwich:
  assumes l: "\<forall>c \<in> set l. isspace c" and r: "\<forall>c \<in> set r. isspace c"
    and t: "t \<noteq> []" "\<not> isspace (hd t)" "\<not> isspace (last t)"
  shows "strip (l @ t @ r) = t"
proof -
  have "dropWhile isspace (l @ t @ r) = dropWhile isspace (t @ r)"
    by (rule dropWhile_append2) (use l in auto)
  also have "\<dots> = t @ r"
    using t by (cases t) auto
  finally have d: "dropWhile isspace (l @ t @ r) = t @ r" .
  have "dropWhile isspace (rev r @ rev t) = dropWhile isspace (rev t)"
    by (rule dropWhile_append2) (use r in auto)
  also have "\<dots> = rev t"
    using t by (cases "rev t") (auto simp: last_rev hd_rev)
  finally show ?thesis by (simp add: strip_def d)
qed

lemma trimmed_ends_with_comma:
  "endswith (strip g) '','' \<longleftrightarrow> (\<exists>u v. g = u @ CHR '','' # v \<and> (\<forall>c \<in> set v. isspace c))"
proof
  assume "endswith (strip g) '',''"
  then obtain u where u: "strip g = u @ '',''" by (auto simp: endswith_comma)
  obtain l r where "g = l @ strip g @ r" "\<forall>c \<in> set r. isspace c"
    using strip_decomp by blast
  with u have "g = (l @ u) @ CHR '','' # r" by simp
  with \<open>\<forall>c \<in> set r. isspace c\<close> show "\<exists>u v. g = u @ CHR '','' # v \<and> (\<forall>c \<in> set v. isspace c)"
    by blast
next
  assume "\<exists>u v. g = u @ CHR '','' # v \<and> (\<forall>c \<in> set v. isspace c)"
  then obtain u v where g: "g = u @ CHR '','' # v" and v: "\<forall>c \<in> set v. isspace c" by blast
  obtain w where w: "dropWhile isspace g = w @ CHR '','' # v"
    using dropWhile_keeps_tail [of isspace "CHR '',''" u v] g not_space_comma by auto
  have "dropWhile isspace (rev v @ CHR '','' # rev w) = dropWhile isspace (CHR '','' # rev w)"
    by (rule dropWhile_append2) (use v in auto)
  then have "dropWhile isspace (rev (w @ CHR '','' # v)) = CHR '','' # rev w"
    by (simp add: not_space_comma)
  then have "strip g = w @ '',''"
    by (simp add: strip_def w)
  then show "endswith (strip g) '',''" by (auto simp: endswith_comma)
qed

lemma digit_not_space: "isdigit_char c \<Longrightarrow> \<not> isspace c"
  by (auto simp: isdigit_char_def isspace_def Let_def)

lemma trimmed_isdigit:
  "isdigit (strip g) \<longleftrightarrow>
     (\<exists>l t r. g = l @ t @ r \<and> (\<forall>c \<in> set l. isspace c) \<and> (\<forall>c \<in> set r. isspace c)
        \<and> t \<noteq> [] \<and> (\<forall>c \<in> set t. isdigit_char c))"
proof
  assume "isdigit (strip g)"
  then have "strip g \<noteq> []" "\<forall>c \<in> set (strip g). isdigit_char c"
    by (auto simp: isdigit_def list_all_iff)
  with strip_decomp [of g] show "\<exists>l t r. g = l @ t @ r \<and> (\<forall>c \<in> set l. isspace c) \<and> (\<forall>c \<in> set r. isspace c)
        \<and> t \<noteq> [] \<and> (\<forall>c \<in> set t. isdigit_char c)" by blast
next
  assume "\<exists>l t r. g = l @ t @ r \<and> (\<forall>c \<in> set l. isspace c) \<and> (\<forall>c \<in> set r. isspace c)
        \<and> t \<noteq> [] \<and> (\<forall>c \<in> set t. isdigit_char c)"
  then obtain l t r where g: "g = l @ t @ r" and l: "\<forall>c \<in> set l. isspace c"
    and r: "\<forall>c \<in> set r. isspace c" and t: "t \<noteq> []" "\<forall>c \<in> set t. isdigit_char c" by blast
  have "\<not> isspace (hd t)" "\<not> isspace (last t)"
    using t digit_not_space by auto
  then have "strip g = t" using strip_sandwich [OF l r t(1)] g by simp
  with t show "isdigit (strip g)" by (simp add: isdigit_def list_all_iff)
qed


lemmas string_eval = validate_rules_group_def validate_rules_id_def endswith_def strip_def
  isspace_def isdigit_def isdigit_char_def

section \<open>Normalising the blocks\<close>

lemma foldl_append_child:
  "foldl (\<lambda>p child. append_child child p) p xs = Elem (tag p) (etext p) (children p @ xs)"
  by (induction xs arbitrary: p) (simp_all add: append_child_def)

lemma modify_at_child:
  "modify_at [length pre] f (Elem t x (pre @ p # rest)) = Elem t x (pre @ f p # rest)"
  by simp

lemma delete_nth_middle:
  "i = length front \<Longrightarrow> delete_nth i (Elem t x (front @ c # back)) = Elem t x (front @ back)"
  by (simp add: delete_nth_def)

lemma enumerate_shift:
  "map (\<lambda>(j, c). (j + k, c)) (filter (\<lambda>(j, c). P c) (enumerate (Suc n) xs))
     = map (\<lambda>(j, c). (j + Suc k, c)) (filter (\<lambda>(j, c). P c) (enumerate n xs))"
  by (induction xs arbitrary: n) auto

lemma organize_loop_merges:
  "organize_loop (length pre) k
     (map (\<lambda>(j, c). (j + k, c))
        (filter (\<lambda>(j, c). tag c = ''ossec_config'') (enumerate (Suc (length pre + length dn)) rest)))
     (Elem t x (pre @ p # dn @ rest))
   = Elem t x
       (pre @ Elem (tag p) (etext p)
                (children p @ concat (map children (filter (\<lambda>c. tag c = ''ossec_config'') rest)))
            # dn @ filter (\<lambda>c. tag c \<noteq> ''ossec_config'') rest)"
proof (induction rest arbitrary: p dn k)
  case Nil
  show ?case by (cases p) simp
next
  case (Cons c rest)
  show ?case
  proof (cases "tag c = ''ossec_config''")
    case True
    let ?p' = "Elem (tag p) (etext p) (children p @ children c)"
    have del: "delete_nth (Suc (length pre + length dn)) (Elem t x (pre @ ?p' # dn @ c # rest))
                 = Elem t x (pre @ ?p' # dn @ rest)"
      using delete_nth_middle [of "Suc (length pre + length dn)" "pre @ ?p' # dn" t x c rest]
      by simp
    have "organize_loop (length pre) k
            (map (\<lambda>(j, c). (j + k, c))
               (filter (\<lambda>(j, c). tag c = ''ossec_config'')
                  (enumerate (Suc (length pre + length dn)) (c # rest))))
            (Elem t x (pre @ p # dn @ c # rest))
          = organize_loop (length pre) (Suc k)
              (map (\<lambda>(j, c). (j + Suc k, c))
                 (filter (\<lambda>(j, c). tag c = ''ossec_config'')
                    (enumerate (Suc (length pre + length dn)) rest)))
              (Elem t x (pre @ ?p' # dn @ rest))"
      using True
      by (simp add: enumerate_shift foldl_append_child del del: modify_at.simps
          add: modify_at_child)
    also have "\<dots> = Elem t x
       (pre @ Elem (tag ?p') (etext ?p')
                (children ?p' @ concat (map children (filter (\<lambda>c. tag c = ''ossec_config'') rest)))
            # dn @ filter (\<lambda>c. tag c \<noteq> ''ossec_config'') rest)"
      by (rule Cons.IH)
    finally show ?thesis using True by simp
  next
    case False
    have "organize_loop (length pre) k
            (map (\<lambda>(j, c). (j + k, c))
               (filter (\<lambda>(j, c). tag c = ''ossec_config'')
                  (enumerate (Suc (length pre + length dn)) (c # rest))))
            (Elem t x (pre @ p # dn @ c # rest))
          = organize_loop (length pre) k
              (map (\<lambda>(j, c). (j + k, c))
                 (filter (\<lambda>(j, c). tag c = ''ossec_config'')
                    (enumerate (Suc (length pre + length (dn @ [c]))) rest)))
              (Elem t x (pre @ p # (dn @ [c]) @ rest))"
      using False by simp
    also have "\<dots> = Elem t x
       (pre @ Elem (tag p) (etext p)
                (children p @ concat (map children (filter (\<lambda>c. tag c = ''ossec_config'') rest)))
            # (dn @ [c]) @ filter (\<lambda>c. tag c \<noteq> ''ossec_config'') rest)"
      by (rule Cons.IH)
    finally show ?thesis using False by simp
  qed
qed

lemma findall_no_match:
  "\<forall>c \<in> set xs. tag c \<noteq> t \<Longrightarrow> filter (\<lambda>(i, c). tag c = t) (enumerate n xs) = []"
  by (induction xs arbitrary: n) auto

lemma findall_split:
  assumes "\<forall>c \<in> set pre. tag c \<noteq> t" "tag p = t"
  shows "findall t (Elem g x (pre @ p # suf))
           = (length pre, p) # filter (\<lambda>(i, c). tag c = t) (enumerate (Suc (length pre)) suf)"
  using assms by (simp add: findall_def enumerate_append_eq findall_no_match)

lemma map_snd_matches:
  "map snd (filter (\<lambda>(i, c). tag c = t) (enumerate n xs)) = filter (\<lambda>c. tag c = t) xs"
  by (induction xs arbitrary: n) auto

lemma length_findall: "length (findall t e) = length (filter (\<lambda>c. tag c = t) (children e))"
  unfolding findall_def using map_snd_matches [of t 0 "children e"] by (metis length_map)

lemma organize_merges:
  assumes cs: "children root = pre @ p # suf"
    and pre: "\<forall>c \<in> set pre. tag c \<noteq> ''ossec_config''" and p: "tag p = ''ossec_config''"
    and more: "filter (\<lambda>c. tag c = ''ossec_config'') suf \<noteq> []"
  shows "organize_ossec_config root =
           Elem (tag root) (etext root)
             (pre @ Elem ''ossec_config'' (etext p)
                      (children p @ concat (map children (filter (\<lambda>c. tag c = ''ossec_config'') suf)))
                  # filter (\<lambda>c. tag c \<noteq> ''ossec_config'') suf)"
proof -
  obtain g x where root: "root = Elem g x (pre @ p # suf)"
    using cs by (cases root) simp
  let ?extras = "filter (\<lambda>(i, c). tag c = ''ossec_config'') (enumerate (Suc (length pre)) suf)"
  have fa: "findall ''ossec_config'' root = (length pre, p) # ?extras"
    unfolding root using pre p by (rule findall_split)
  have "map snd ?extras = filter (\<lambda>c. tag c = ''ossec_config'') suf"
    by (rule map_snd_matches)
  with more have "?extras \<noteq> []" by auto
  then have "organize_ossec_config root = organize_loop (length pre) 0 ?extras root"
    by (simp add: organize_ossec_config_def fa Let_def)
  also have "?extras = map (\<lambda>(j, c). (j + 0, c)) ?extras" by simp
  also have "organize_loop (length pre) 0 \<dots> root
     = Elem g x
       (pre @ Elem (tag p) (etext p)
                (children p @ concat (map children (filter (\<lambda>c. tag c = ''ossec_config'') suf)))
            # [] @ filter (\<lambda>c. tag c \<noteq> ''ossec_config'') suf)"
    unfolding root using organize_loop_merges [of pre 0 "[]" suf g x p] by simp
  finally show ?thesis using p by (simp add: root)
qed

lemma organize_noop:
  "length (filter (\<lambda>c. tag c = ''ossec_config'') (children root)) \<le> 1
     \<Longrightarrow> organize_ossec_config root = root"
  by (simp add: organize_ossec_config_def length_findall Let_def)

section \<open>Walking the tree\<close>

lemma iter_at_self: "(p, e) \<in> set (iter_at p e)"
  by (cases e) simp

lemma iter_at_set: "set (iter_at p e) = insert (p, e) (set (iter_list p 0 (children e)))"
  by (cases e) simp

lemma iter_list_sub:
  "j < length cs \<Longrightarrow> set (iter_at (p @ [k + j]) (cs ! j)) \<subseteq> set (iter_list p k cs)"
proof (induction cs arbitrary: k j)
  case Nil
  then show ?case by simp
next
  case (Cons c cs)
  show ?case
  proof (cases j)
    case 0
    then show ?thesis by simp
  next
    case (Suc j')
    with Cons.prems have "j' < length cs" by simp
    from Cons.IH [OF this, of "Suc k"] Suc show ?thesis by auto
  qed
qed

lemma iter_list_nth:
  "j < length cs \<Longrightarrow> (p @ [k + j], cs ! j) \<in> set (iter_list p k cs)"
  using iter_list_sub [of j cs p k] iter_at_self by blast

lemma iter_child_closed:
  "(q, a) \<in> set (iter_at p e) \<Longrightarrow> i < length (children a)
     \<Longrightarrow> (q @ [i], children a ! i) \<in> set (iter_at p e)"
  "(q, a) \<in> set (iter_list p k cs) \<Longrightarrow> i < length (children a)
     \<Longrightarrow> (q @ [i], children a ! i) \<in> set (iter_list p k cs)"
proof (induction p e and p k cs arbitrary: q a i and q a i rule: iter_at_iter_list.induct)
  case (1 p t x cs)
  from "1.prems"(1) consider "(q, a) = (p, Elem t x cs)" | "(q, a) \<in> set (iter_list p 0 cs)"
    by auto
  then show ?case
  proof cases
    case 1
    with "1.prems"(2) have "(q @ [i], children a ! i) \<in> set (iter_list p 0 cs)"
      using iter_list_nth [of i cs p 0] by auto
    then show ?thesis by simp
  next
    case 2
    from "1.IH" [OF this "1.prems"(2)] show ?thesis by simp
  qed
next
  case (2 p i)
  then show ?case by simp
next
  case (3 p k c cs)
  then show ?case by auto
qed

lemma find_idx_Some:
  "find_idx t cs = Some i \<Longrightarrow> i < length cs \<and> tag (cs ! i) = t \<and> (\<forall>j < i. tag (cs ! j) \<noteq> t)"
proof (induction cs arbitrary: i)
  case Nil
  then show ?case by simp
next
  case (Cons c cs)
  show ?case
  proof (cases "tag c = t")
    case True
    with Cons.prems show ?thesis by simp
  next
    case False
    with Cons.prems obtain i' where i': "find_idx t cs = Some i'" "i = Suc i'" by auto
    from Cons.IH [OF i'(1)] False i'(2) show ?thesis
      by (auto simp: less_Suc_eq_0_disj)
  qed
qed

lemma find_idx_None: "find_idx t cs = None \<longleftrightarrow> (\<forall>c \<in> set cs. tag c \<noteq> t)"
  by (induction cs) auto

lemma in_findall_desc:
  "(p, e) \<in> set (findall_desc t root) \<longleftrightarrow> (p, e) \<in> set (iter_list [] 0 (children root)) \<and> tag e = t"
  by (auto simp: findall_desc_def)

lemma command_exists_iff:
  "command_exists name root \<longleftrightarrow>
     (\<exists>(p, c) \<in> set (findall_desc ''command'' root). has_field_text ''name'' name c)"
  by (simp add: command_exists_def list_ex_iff)

lemma appended_is_descendant:
  assumes "find_idx t (children root) = Some i"
  shows "([i, length (children (children root ! i))], c)
           \<in> set (iter_list [] 0 (children (modify_at [i] (append_child c) root)))"
proof -
  let ?b = "children root ! i" and ?root' = "modify_at [i] (append_child c) root"
  from find_idx_Some [OF assms] have i: "i < length (children root)" by simp
  have kids: "children ?root' = (children root)[i := append_child c ?b]" by simp
  have "([] @ [0 + i], children ?root' ! i) \<in> set (iter_list [] 0 (children ?root'))"
    by (rule iter_list_nth) (simp add: i)
  then have b: "([i], append_child c ?b) \<in> set (iter_list [] 0 (children ?root'))"
    using i by (simp add: kids)
  have "([i] @ [length (children ?b)], children (append_child c ?b) ! length (children ?b))
          \<in> set (iter_list [] 0 (children ?root'))"
    by (rule iter_child_closed(2) [OF b]) (simp add: append_child_def)
  then show ?thesis by (simp add: append_child_def)
qed

lemma new_command_named: "has_field_text ''name'' (Some name) (new_command name executable t)"
  by (simp add: has_field_text_def find_child_def new_command_def)

lemma add_command_then_exists:
  assumes "add_command name executable t root = Inr (True, root')"
  shows "command_exists (Some name) root'"
proof -
  from assms obtain i where i: "find_idx ''ossec_config'' (children root) = Some i"
    and root': "root' = modify_at [i] (append_child (new_command name executable t)) root"
    by (auto simp: add_command_def split: if_splits option.splits)
  have "([i, length (children (children root ! i))], new_command name executable t)
          \<in> set (findall_desc ''command'' root')"
    unfolding in_findall_desc root' using appended_is_descendant [OF i]
    by (simp add: new_command_def)
  then show ?thesis
    unfolding command_exists_iff using new_command_named by blast
qed

section \<open>Evaluating the examples\<close>

lemmas example_docs = empty_config_def custom_block_command_def custom_block_response_def
  with_command_def with_response_def

lemmas tree_eval = findall_desc_def first_with_def has_field_text_def find_child_def
  command_exists_def active_response_exists_def write_leaf_def set_text_def append_child_def
  delete_nth_def remove_def fields_of_def

lemmas value_eval = int_of_str_def int_strip_def isspace_int_def parse_unsigned_def
  digit_value_def str_int_def digit_char_def
  validate_level_def

section \<open>Adding commands and active responses\<close>

lemma modify_append_child: "modify_at [i] (append_child node) root = with_appended i node root"
  by (simp add: with_appended_def append_child_def)

lemma rejected_iff:
  "rejected command location level agent_id rules_group rules_id root \<longleftrightarrow>
     (\<not> command_exists (Some command) root
      \<or> location \<notin> set location_types
      \<or> (location = ''defined-agent'' \<and> (agent_id = None \<or> agent_id = Some []))
      \<or> (case level of None \<Rightarrow> False | Some l \<Rightarrow> \<not> validate_level l)
      \<or> (case rules_group of None \<Rightarrow> False | Some g \<Rightarrow> \<not> validate_rules_group g)
      \<or> (case rules_id of None \<Rightarrow> False | Some s \<Rightarrow> \<not> validate_rules_id s))"
  by (cases level) (simp_all add: rejected_def location_types_def validate_level_def)

lemma add_active_response_rejected:
  "rejected command location level agent_id rules_group rules_id root \<Longrightarrow>
     add_active_response command location level timeout agent_id rules_group rules_id root
       = Inr (False, root)"
  unfolding rejected_iff add_active_response_def by auto

lemma add_active_response_accepted:
  "\<not> rejected command location level agent_id rules_group rules_id root \<Longrightarrow>
     add_active_response command location level timeout agent_id rules_group rules_id root
       = (case find_idx ''ossec_config'' (children root) of
            None \<Rightarrow> Inl TypeError
          | Some i \<Rightarrow> Inr (True, with_appended i
              (new_ar command location level timeout agent_id rules_group rules_id) root))"
  unfolding rejected_iff add_active_response_def
  by (auto simp: modify_append_child simp del: modify_at.simps split: option.splits)

lemma new_ar_fields:
  "map (\<lambda>c. (tag c, etext c))
       (children (new_ar command location level timeout agent_id rules_group rules_id))
     = [(''command'', Some command), (''location'', Some location)]
       @ (case level of None \<Rightarrow> [] | Some l \<Rightarrow> [(''level'', Some (str_int l))])
       @ (case timeout of None \<Rightarrow> [] | Some t \<Rightarrow> [(''timeout'', Some (str_int t))])
       @ (case agent_id of None \<Rightarrow> [] | Some a \<Rightarrow> [(''agent_id'', Some a)])
       @ (case rules_group of None \<Rightarrow> [] | Some g \<Rightarrow> [(''rules_group'', Some g)])
       @ (case rules_id of None \<Rightarrow> [] | Some s \<Rightarrow> [(''rules_id'', Some s)])"
  by (simp add: new_ar_def optional_leaf_def split: option.splits)

lemma new_ar_leaves:
  "c \<in> set (children (new_ar command location level timeout agent_id rules_group rules_id))
     \<Longrightarrow> children c = []"
  by (auto simp: new_ar_def optional_leaf_def split: option.splits)

section \<open>References under normalisation\<close>

lemma snd_iter:
  "map snd (iter_at p e) = elems e"
  "map snd (iter_list p k cs) = concat (map elems cs)"
  by (induction p e and p k cs rule: iter_at_iter_list.induct) simp_all

lemma set_elems: "set (elems e) = insert e (\<Union>c \<in> set (children e). set (elems c))"
  by (cases e) simp

lemma findall_desc_tagged: "snd ` set (findall_desc t root) = tagged t (children root)"
proof -
  have "snd ` set (findall_desc t root)
          = {d \<in> set (map snd (iter_list [] 0 (children root))). tag d = t}"
    by (force simp: findall_desc_def)
  then show ?thesis by (auto simp: snd_iter tagged_def)
qed

lemma tagged_append: "tagged t (xs @ ys) = tagged t xs \<union> tagged t ys"
  by (auto simp: tagged_def)

lemma tagged_Cons: "tagged t (x # xs) = tagged t [x] \<union> tagged t xs"
  by (auto simp: tagged_def)

lemma tagged_Nil: "tagged t [] = {}"
  by (simp add: tagged_def)

lemma tagged_other: "tag e \<noteq> t \<Longrightarrow> tagged t [e] = tagged t (children e)"
  by (cases e) (auto simp: tagged_def)

lemma tagged_concat: "tagged t (concat xss) = (\<Union>xs \<in> set xss. tagged t xs)"
  by (auto simp: tagged_def)

lemma tagged_blocks:
  "t \<noteq> b \<Longrightarrow> tagged t xs =
     tagged t (filter (\<lambda>c. tag c \<noteq> b) xs)
     \<union> tagged t (concat (map children (filter (\<lambda>c. tag c = b) xs)))"
proof (induction xs)
  case Nil
  show ?case by (simp add: tagged_Nil)
next
  case (Cons x xs)
  show ?case
  proof (cases "tag x = b")
    case True
    with Cons.prems have "tagged t [x] = tagged t (children x)" by (simp add: tagged_other)
    with True Cons.IH [OF Cons.prems] show ?thesis
      using tagged_Cons [of t x xs] by (auto simp: tagged_append)
  next
    case False
    with Cons.IH [OF Cons.prems] show ?thesis
      using tagged_Cons [of t x xs]
        tagged_Cons [of t x "filter (\<lambda>c. tag c \<noteq> b) xs"] by auto
  qed
qed


lemma organize_cases:
  obtains "organize_ossec_config root = root"
  | pre p suf where "children root = pre @ p # suf" "tag p = ''ossec_config''"
      "children (organize_ossec_config root) =
         pre @ Elem ''ossec_config'' (etext p)
                 (children p @ concat (map children (filter (\<lambda>c. tag c = ''ossec_config'') suf)))
             # filter (\<lambda>c. tag c \<noteq> ''ossec_config'') suf"
proof (cases "length (filter (\<lambda>c. tag c = ''ossec_config'') (children root)) \<le> 1")
  case True
  then show ?thesis using organize_noop that(1) by blast
next
  let ?oc = "\<lambda>c. tag c = ''ossec_config''"
  case False
  then have "filter ?oc (children root) \<noteq> []" by auto
  then have "\<exists>c \<in> set (children root). ?oc c" by (simp add: filter_empty_conv)
  then obtain pre p suf where cs: "children root = pre @ p # suf"
    and p: "?oc p" and pre: "\<forall>c \<in> set pre. \<not> ?oc c"
    using split_list_first_prop [of "children root" ?oc] by blast
  from pre have "filter ?oc pre = []" by (simp add: filter_empty_conv)
  with False cs p have more: "filter ?oc suf \<noteq> []" by auto
  from organize_merges [OF cs pre p more] cs p show ?thesis using that(2) by simp
qed

lemma organize_keeps_tagged:
  assumes t: "t \<noteq> ''ossec_config''"
  shows "snd ` set (findall_desc t (organize_ossec_config root)) = snd ` set (findall_desc t root)"
proof (cases root rule: organize_cases)
  case 1
  then show ?thesis by simp
next
  case (2 pre p suf)
  let ?extra = "concat (map children (filter (\<lambda>c. tag c = ''ossec_config'') suf))"
  let ?rest = "filter (\<lambda>c. tag c \<noteq> ''ossec_config'') suf"
  let ?merged = "Elem ''ossec_config'' (etext p) (children p @ ?extra)"
  have m: "tagged t [?merged] = tagged t (children p) \<union> tagged t ?extra"
    using t tagged_other [of ?merged t] by (simp add: tagged_append)
  have p: "tagged t [p] = tagged t (children p)"
    using t 2(2) by (simp add: tagged_other)
  have s: "tagged t suf = tagged t ?rest \<union> tagged t ?extra"
    using t by (rule tagged_blocks)
  have "tagged t (pre @ ?merged # ?rest) = tagged t pre \<union> tagged t [?merged] \<union> tagged t ?rest"
    using tagged_Cons [of t ?merged ?rest] by (auto simp: tagged_append)
  also have "\<dots> = tagged t pre \<union> tagged t [p] \<union> tagged t suf"
    unfolding m p s by blast
  also have "\<dots> = tagged t (pre @ p # suf)"
    using tagged_Cons [of t p suf] by (auto simp: tagged_append)
  finally show ?thesis
    unfolding findall_desc_tagged 2(1) 2(3) .
qed

lemma command_exists_organize:
  "command_exists name (organize_ossec_config root) = command_exists name root"
proof -
  have key: "command_exists name r \<longleftrightarrow>
          (\<exists>c \<in> snd ` set (findall_desc ''command'' r). has_field_text ''name'' name c)" for r
    unfolding command_exists_iff by force
  have same: "snd ` set (findall_desc ''command'' (organize_ossec_config root))
                = snd ` set (findall_desc ''command'' root)"
    by (rule organize_keeps_tagged) simp
  show ?thesis unfolding key same ..
qed

lemma set_dangling:
  "set (dangling_references root) =
     {etext c | c ar. ar \<in> snd ` set (findall_desc ''active-response'' root)
        \<and> find_child ''command'' ar = Some c \<and> \<not> command_exists (etext c) root}"
  unfolding dangling_references_def by (force split: option.splits if_splits)

lemma dangling_organize:
  "set (dangling_references (organize_ossec_config root)) = set (dangling_references root)"
proof -
  have same: "snd ` set (findall_desc ''active-response'' (organize_ossec_config root))
                = snd ` set (findall_desc ''active-response'' root)"
    by (rule organize_keeps_tagged) simp
  show ?thesis unfolding set_dangling same command_exists_organize ..
qed

lemma validate_loop_first:
  "validate_loop root ars =
     (case concat (map (\<lambda>ar. case find_child ''command'' ar of
                                None \<Rightarrow> []
                              | Some c \<Rightarrow> if command_exists (etext c) root then [] else [etext c]) ars) of
        [] \<Rightarrow> Inr ()
      | c # _ \<Rightarrow> Inl (MissingCommand c))"
  by (induction ars) (auto split: option.splits)

lemma validate_commands_first:
  "validate_commands root =
     (case dangling_references root of [] \<Rightarrow> Inr () | c # _ \<Rightarrow> Inl (MissingCommand c))"
proof -
  have "dangling_references root =
      concat (map (\<lambda>ar. case find_child ''command'' ar of
                                None \<Rightarrow> []
                              | Some c \<Rightarrow> if command_exists (etext c) root then [] else [etext c])
                 (map snd (findall_desc ''active-response'' root)))"
    unfolding dangling_references_def by (simp add: comp_def case_prod_unfold)
  then show ?thesis
    unfolding validate_commands_def validate_loop_first by simp
qed

lemma construct_first:
  "construct parsed =
     (case dangling_references (organize_ossec_config parsed) of
        [] \<Rightarrow> Inr (organize_ossec_config parsed)
      | c # _ \<Rightarrow> Inl (MissingCommand c))"
  by (simp add: construct_def validate_commands_first Let_def split: list.splits)

section \<open>The errors of the mutations\<close>

lemma int_of_str_error: "int_of_str s = Inl e \<Longrightarrow> e = ValueError"
  by (auto simp: int_of_str_def split: list.splits if_splits option.splits)

lemma py_int_error: "py_int v = Inl e \<Longrightarrow> e = ValueError"
  by (cases v) (auto dest: int_of_str_error)

lemma validate_rules_group_any_error: "validate_rules_group_any v = Inl e \<Longrightarrow> e = AttributeError"
  by (cases v) (auto split: if_splits)

lemma validate_rules_id_any_error: "validate_rules_id_any v = Inl e \<Longrightarrow> e = AttributeError"
  by (cases v) (auto split: if_splits)

lemma apply_ar_updates_error:
  "apply_ar_updates p updates root = Inl e \<Longrightarrow> e = ValueError \<or> e = AttributeError"
proof (induction updates arbitrary: root)
  case Nil
  then show ?case by simp
next
  case (Cons u updates)
  obtain t v where u: "u = (t, v)" by (cases u)
  from Cons.prems Cons.IH show ?case
    unfolding u
    by (auto simp: Let_def split: if_splits sum.splits
        dest: py_int_error validate_rules_group_any_error validate_rules_id_any_error)
qed

lemma remove_error: "remove p root = Inl e \<Longrightarrow> e = ValueError"
  by (auto simp: remove_def split: list.splits if_splits)

lemma mutations_never_missing_command:
  "add_command n ex ta root \<noteq> Inl (MissingCommand c)"
  "add_active_response cmd loc lvl tmo aid grp rid root \<noteq> Inl (MissingCommand c)"
  "update_active_response cmd updates root \<noteq> Inl (MissingCommand c)"
  "remove_active_response cmd root \<noteq> Inl (MissingCommand c)"
  "remove_command n root \<noteq> Inl (MissingCommand c)"
proof -
  show "add_command n ex ta root \<noteq> Inl (MissingCommand c)"
    by (simp add: add_command_def split: option.splits)
  show "add_active_response cmd loc lvl tmo aid grp rid root \<noteq> Inl (MissingCommand c)"
    by (simp add: add_active_response_def split: option.splits)
  show "update_active_response cmd updates root \<noteq> Inl (MissingCommand c)"
    by (auto simp: update_active_response_def split: option.splits dest: apply_ar_updates_error)
  show "remove_active_response cmd root \<noteq> Inl (MissingCommand c)"
    by (auto simp: remove_active_response_def split: option.splits sum.splits dest: remove_error)
  show "remove_command n root \<noteq> Inl (MissingCommand c)"
    by (auto simp: remove_command_def split: option.splits sum.splits dest: remove_error)
qed

lemma ghost_update:
  "update_active_response ''custom-block'' [(''command'', PStr ''ghost'')] (with_response ''300'')
     = Inr (True, ghosted)"
  by (simp add: update_active_response_def ghosted_def example_docs tree_eval)

lemma ghost_dangling: "dangling_references ghosted = [Some ''ghost'']"
  by (simp add: dangling_references_def ghosted_def example_docs tree_eval)

lemma response_sound: "dangling_references (with_response ''300'') = []"
  by (simp add: dangling_references_def example_docs tree_eval)

section \<open>Mutations on every document\<close>

text \<open>
  On every document with an active response for the command, a level that \<open>int\<close> cannot
  read makes \<open>update_active_response\<close> raise \<open>ValueError\<close>.
\<close>

theorem level_not_a_number_raises:
  assumes "first_with ''active-response'' ''command'' (Some command) root = Some (p, ar)"
    and "int_of_str s = Inl e"
  shows "update_active_response command ((''level'', PStr s) # rest) root = Inl ValueError"
  using assms int_of_str_error [of s e]
  by (simp add: update_active_response_def Let_def)

lemma first_with_Some:
  "first_with kind field v root = Some (p, e) \<Longrightarrow>
     (p, e) \<in> set (findall_desc kind root) \<and> has_field_text field v e"
  by (auto simp: first_with_def find_Some_iff in_set_conv_nth)

lemma first_with_None:
  "first_with kind field v root = None \<longleftrightarrow>
     (\<forall>(p, e) \<in> set (findall_desc kind root). \<not> has_field_text field v e)"
  by (auto simp: first_with_def find_None_iff)

lemma active_response_exists_iff:
  "active_response_exists command root \<longleftrightarrow>
     (\<exists>ar \<in> tagged ''active-response'' (children root). has_field_text ''command'' (Some command) ar)"
proof -
  have "active_response_exists command root \<longleftrightarrow>
     (\<exists>ar \<in> snd ` set (findall_desc ''active-response'' root).
         has_field_text ''command'' (Some command) ar)"
    unfolding active_response_exists_def list_ex_iff by force
  then show ?thesis unfolding findall_desc_tagged .
qed

lemma tagged_grandchild:
  "b \<in> set cs \<Longrightarrow> node \<in> set (children b) \<Longrightarrow> tag node = t \<Longrightarrow> node \<in> tagged t cs"
  unfolding tagged_def using set_elems [of b] set_elems [of node] by blast

lemma new_ar_command: "has_field_text ''command'' (Some command)
    (new_ar command location level timeout agent_id rules_group rules_id)"
  by (simp add: has_field_text_def find_child_def new_ar_def)

lemma path_lengths:
  "(p, e) \<in> set (iter_at q x) \<Longrightarrow> (p = q \<and> e = x) \<or> length q < length p"
  "(p, e) \<in> set (iter_list q k cs) \<Longrightarrow>
     length q < length p
     \<and> (length p = Suc (length q) \<longrightarrow> (\<exists>j < length cs. p = q @ [k + j] \<and> e = cs ! j))"
proof (induction q x and q k cs rule: iter_at_iter_list.induct)
  case (1 q t x cs)
  from "1.prems" have "(p, e) = (q, Elem t x cs) \<or> (p, e) \<in> set (iter_list q 0 cs)"
    by simp
  then show ?case
  proof
    assume "(p, e) = (q, Elem t x cs)"
    then show ?thesis by simp
  next
    assume "(p, e) \<in> set (iter_list q 0 cs)"
    from "1.IH" [OF this] have "length q < length p" by (rule conjunct1)
    then show ?thesis by (rule disjI2)
  qed
next
  case (2 q k)
  then show ?case by simp
next
  case (3 q k c cs)
  from "3.prems" have "(p, e) \<in> set (iter_at (q @ [k]) c) \<or> (p, e) \<in> set (iter_list q (Suc k) cs)"
    by simp
  then show ?case
  proof
    assume "(p, e) \<in> set (iter_at (q @ [k]) c)"
    from "3.IH"(1) [OF this]
    have "(p = q @ [k] \<and> e = c) \<or> length (q @ [k]) < length p" .
    then show ?thesis
    proof
      assume a: "p = q @ [k] \<and> e = c"
      then have "0 < length (c # cs) \<and> p = q @ [k + 0] \<and> e = (c # cs) ! 0" by simp
      then have "\<exists>j < length (c # cs). p = q @ [k + j] \<and> e = (c # cs) ! j" by (rule exI)
      moreover from a have "length q < length p" by simp
      ultimately show ?thesis by simp
    next
      assume "length (q @ [k]) < length p"
      then show ?thesis by simp
    qed
  next
    assume "(p, e) \<in> set (iter_list q (Suc k) cs)"
    from "3.IH"(2) [OF this] have len: "length q < length p"
      and one: "length p = Suc (length q) \<longrightarrow> (\<exists>j < length cs. p = q @ [Suc k + j] \<and> e = cs ! j)"
      by simp_all
    have "length p = Suc (length q) \<longrightarrow> (\<exists>j < length (c # cs). p = q @ [k + j] \<and> e = (c # cs) ! j)"
    proof
      assume "length p = Suc (length q)"
      with one obtain j where j: "j < length cs" "p = q @ [Suc k + j]" "e = cs ! j" by blast
      then have "Suc j < length (c # cs) \<and> p = q @ [k + Suc j] \<and> e = (c # cs) ! Suc j" by simp
      then show "\<exists>j < length (c # cs). p = q @ [k + j] \<and> e = (c # cs) ! j" by (rule exI)
    qed
    with len show ?thesis by (rule conjI)
  qed
qed

lemma direct_child_path:
  assumes "([j], e) \<in> set (findall_desc t root)"
  shows "j < length (children root) \<and> e = children root ! j"
proof -
  from assms have "([j], e) \<in> set (iter_list [] 0 (children root))"
    by (simp add: in_findall_desc)
  from path_lengths(2) [OF this] show ?thesis by simp
qed

lemma remove_Inr:
  "remove p root = Inr root' \<Longrightarrow>
     \<exists>j. p = [j] \<and> j < length (children root) \<and> root' = delete_nth j root"
  by (auto simp: remove_def split: list.splits if_splits)

lemma kept_by_delete_nth:
  assumes i: "i < length (children root)" and j: "j < length (children root)"
    and differ: "tag (children root ! i) \<noteq> tag (children root ! j)"
  shows "children root ! i \<in> set (children (delete_nth j root))"
proof -
  let ?cs = "children root"
  from differ have "i \<noteq> j" by auto
  then consider "i < j" | "j < i" by arith
  then have "?cs ! i \<in> set (take j ?cs) \<union> set (drop (Suc j) ?cs)"
  proof cases
    case 1
    with j have "i < length (take j ?cs)" "take j ?cs ! i = ?cs ! i" by simp_all
    then have "?cs ! i \<in> set (take j ?cs)" by (metis nth_mem)
    then show ?thesis by (rule UnI1)
  next
    case 2
    with i have "i - Suc j < length (drop (Suc j) ?cs)" "drop (Suc j) ?cs ! (i - Suc j) = ?cs ! i"
      by simp_all
    then have "?cs ! i \<in> set (drop (Suc j) ?cs)" by (metis nth_mem)
    then show ?thesis by (rule UnI2)
  qed
  then show ?thesis by (simp add: delete_nth_def)
qed

text \<open>
  On every document, once \<open>add_active_response\<close> has returned \<open>True\<close> for a command,
  \<open>remove_active_response\<close> for that command either raises \<open>ValueError\<close> or removes an
  older active response that is a direct child of the root; the one just added, under
  the \<open>ossec_config\<close> block, is still there.
\<close>

theorem remove_after_add_never_completes:
  assumes add: "add_active_response command location level timeout agent_id rules_group rules_id root
                  = Inr (True, root2)"
  shows "remove_active_response command root2 = Inl ValueError
         \<or> (\<exists>root3. remove_active_response command root2 = Inr (True, root3)
               \<and> active_response_exists command root3)"
proof -
  let ?node = "new_ar command location level timeout agent_id rules_group rules_id"
  from add have "\<not> rejected command location level agent_id rules_group rules_id root"
    using add_active_response_rejected [of command location level agent_id rules_group rules_id root timeout]
    by auto
  from add_active_response_accepted [OF this, of timeout] add
  obtain i where i: "find_idx ''ossec_config'' (children root) = Some i"
    and root2: "root2 = with_appended i ?node root"
    by (auto split: option.splits)
  from find_idx_Some [OF i] have il: "i < length (children root)"
    and it: "tag (children root ! i) = ''ossec_config''" by simp_all
  let ?b = "children root2 ! i"
  have il2: "i < length (children root2)" using il by (simp add: root2 with_appended_def)
  have bt: "tag ?b = ''ossec_config''" using il it by (simp add: root2 with_appended_def)
  have bn: "?node \<in> set (children ?b)" using il by (simp add: root2 with_appended_def)
  have nt: "tag ?node = ''active-response''" by (simp add: new_ar_def)
  have "?node \<in> tagged ''active-response'' (children root2)"
    using il2 bn nt by (intro tagged_grandchild [of ?b]) simp_all
  then have "active_response_exists command root2"
    unfolding active_response_exists_iff using new_ar_command by blast
  then have "first_with ''active-response'' ''command'' (Some command) root2 \<noteq> None"
    unfolding first_with_None active_response_exists_def list_ex_iff by blast
  then obtain p ar where f: "first_with ''active-response'' ''command'' (Some command) root2 = Some (p, ar)"
    by auto
  from first_with_Some [OF f] have par: "(p, ar) \<in> set (findall_desc ''active-response'' root2)"
    by simp
  show ?thesis
  proof (cases "remove p root2")
    case (Inl e)
    with remove_error [OF Inl] f show ?thesis by (simp add: remove_active_response_def)
  next
    case (Inr root3)
    from remove_Inr [OF Inr] obtain j where p: "p = [j]" and jl: "j < length (children root2)"
      and root3: "root3 = delete_nth j root2" by blast
    from direct_child_path [of j ar] par p have ar: "ar = children root2 ! j" by simp
    from par have "tag ar = ''active-response''" by (simp add: in_findall_desc)
    with ar bt have "tag ?b \<noteq> tag (children root2 ! j)" by simp
    from kept_by_delete_nth [OF il2 jl this] have "?b \<in> set (children root3)"
      by (simp add: root3)
    then have "?node \<in> tagged ''active-response'' (children root3)"
      using bn nt by (intro tagged_grandchild [of ?b]) simp_all
    then have "active_response_exists command root3"
      unfolding active_response_exists_iff using new_ar_command by blast
    with Inr f show ?thesis by (simp add: remove_active_response_def)
  qed
qed

theorem remove_after_add_never_completes_witness:
  "add_active_response ''custom-block'' ''local'' (Some 10) (Some 300) None None
     (Some ''1001,1002,1003'') with_command = Inr (True, with_response ''300'')
   \<and> (remove_active_response ''custom-block'' (with_response ''300'') = Inl ValueError
        \<or> (\<exists>root3. remove_active_response ''custom-block'' (with_response ''300'') = Inr (True, root3)
              \<and> active_response_exists ''custom-block'' root3))"
proof -
  have added: "add_active_response ''custom-block'' ''local'' (Some 10) (Some 300) None None
     (Some ''1001,1002,1003'') with_command = Inr (True, with_response ''300'')"
    by (simp add: add_active_response_def new_ar_def optional_leaf_def location_types_def
        example_docs tree_eval value_eval string_eval)
  from added remove_after_add_never_completes [OF added] show ?thesis by (rule conjI)
qed

theorem level_not_a_number_raises_witness:
  "first_with ''active-response'' ''command'' (Some ''custom-block'') (with_response ''300'')
     = Some ([0, 1], custom_block_response ''300'')
   \<and> int_of_str ''high'' = Inl ValueError
   \<and> update_active_response ''custom-block'' [(''level'', PStr ''high''), (''timeout'', PInt 5)]
         (with_response ''300'') = Inl ValueError"
proof -
  have f: "first_with ''active-response'' ''command'' (Some ''custom-block'') (with_response ''300'')
     = Some ([0, 1], custom_block_response ''300'')"
    by (simp add: example_docs tree_eval)
  have e: "int_of_str ''high'' = Inl ValueError"
    by (simp add: value_eval)
  from f e level_not_a_number_raises [OF f e] show ?thesis by (intro conjI)
qed

section \<open>The validators\<close>

text \<open>
  C6. For every string \<open>s\<close>, \<open>_validate_rules_group\<close> accepts \<open>s\<close> if and only if \<open>s\<close> is
  non-empty and every pipe-separated segment of \<open>s\<close>, trimmed, ends with a comma: the
  segment is some text, a comma, and then whitespace only. The four examples of the
  specification are accepted and rejected as it says.
\<close>

theorem rules_group_accepts_iff:
  "(validate_rules_group s \<longleftrightarrow>
      s \<noteq> [] \<and> (\<forall>segs. segmentation CHR ''|'' s segs \<longrightarrow>
        (\<forall>g \<in> set segs. \<exists>u v. g = u @ CHR '','' # v \<and> (\<forall>c \<in> set v. isspace c))))
   \<and> validate_rules_group ''authentication_failure,''
   \<and> \<not> validate_rules_group ''authentication_failure''
   \<and> \<not> validate_rules_group ''a,|b''
   \<and> validate_rules_group ''a,|b,''"
proof -
  have "validate_rules_group s \<longleftrightarrow>
      s \<noteq> [] \<and> (\<forall>g \<in> set (split_str CHR ''|'' s). endswith (strip g) '','')"
    by (simp add: validate_rules_group_def list_all_iff)
  then have general: "validate_rules_group s \<longleftrightarrow>
      s \<noteq> [] \<and> (\<forall>segs. segmentation CHR ''|'' s segs \<longrightarrow>
        (\<forall>g \<in> set segs. \<exists>u v. g = u @ CHR '','' # v \<and> (\<forall>c \<in> set v. isspace c)))"
    by (simp add: segmentation_iff trimmed_ends_with_comma)
  have e1: "validate_rules_group ''authentication_failure,''" by (simp add: string_eval)
  have e2: "\<not> validate_rules_group ''authentication_failure''" by (simp add: string_eval)
  have e3: "\<not> validate_rules_group ''a,|b''" by (simp add: string_eval)
  have e4: "validate_rules_group ''a,|b,''" by (simp add: string_eval)
  from general e1 e2 e3 e4 show ?thesis by (intro conjI)
qed

theorem rules_group_accepts_iff_witness:
  "segmentation CHR ''|'' ''a, | b,'' [''a, '', '' b,'']
   \<and> (\<exists>u v. ''a, '' = u @ CHR '','' # v \<and> (\<forall>c \<in> set v. isspace c))
   \<and> (\<exists>u v. '' b,'' = u @ CHR '','' # v \<and> (\<forall>c \<in> set v. isspace c))"
proof -
  have v: "validate_rules_group ''a, | b,''" by (simp add: string_eval)
  have s: "segmentation CHR ''|'' ''a, | b,'' [''a, '', '' b,'']"
    by (simp add: segmentation_def)
  note main = conjunct1 [OF rules_group_accepts_iff [of "''a, | b,''"]]
  note every = conjunct2 [OF iffD1 [OF main v]]
  note each = mp [OF spec [OF every] s]
  have g1: "\<exists>u v. ''a, '' = u @ CHR '','' # v \<and> (\<forall>c \<in> set v. isspace c)"
    by (rule bspec [OF each]) simp
  have g2: "\<exists>u v. '' b,'' = u @ CHR '','' # v \<and> (\<forall>c \<in> set v. isspace c)"
    by (rule bspec [OF each]) simp
  from s g1 g2 show ?thesis by (intro conjI)
qed

text \<open>
  C7. Read as written, "every segment, trimmed, consists entirely of digits" holds of a
  segment that is empty after trimming. \<open>str.isdigit\<close> is false on the empty string, so
  \<open>_validate_rules_id\<close> rejects a string with such a segment, for example one with a
  trailing comma.
\<close>

theorem rules_id_empty_segment_counterexample:
  "spec_rules_id ''1001,'' \<and> \<not> validate_rules_id ''1001,''"
  by (simp add: spec_rules_id_def string_eval)

text \<open>
  C7, amended. For every string \<open>s\<close>, \<open>_validate_rules_id\<close> accepts \<open>s\<close> if and only if
  \<open>s\<close> is non-empty and every comma-separated segment of \<open>s\<close> is whitespace, then at least
  one digit and digits only, then whitespace. The two examples of the specification are
  accepted and rejected as it says.
\<close>

theorem rules_id_accepts_iff:
  "(validate_rules_id s \<longleftrightarrow>
      s \<noteq> [] \<and> (\<forall>segs. segmentation CHR '','' s segs \<longrightarrow>
        (\<forall>g \<in> set segs. \<exists>l t r. g = l @ t @ r \<and> (\<forall>c \<in> set l. isspace c)
           \<and> (\<forall>c \<in> set r. isspace c) \<and> t \<noteq> [] \<and> (\<forall>c \<in> set t. isdigit_char c))))
   \<and> validate_rules_id ''1001,1002''
   \<and> \<not> validate_rules_id ''1001,abc''"
proof -
  have "validate_rules_id s \<longleftrightarrow>
      s \<noteq> [] \<and> (\<forall>g \<in> set (split_str CHR '','' s). isdigit (strip g))"
    by (simp add: validate_rules_id_def list_all_iff)
  then have general: "validate_rules_id s \<longleftrightarrow>
      s \<noteq> [] \<and> (\<forall>segs. segmentation CHR '','' s segs \<longrightarrow>
        (\<forall>g \<in> set segs. \<exists>l t r. g = l @ t @ r \<and> (\<forall>c \<in> set l. isspace c)
           \<and> (\<forall>c \<in> set r. isspace c) \<and> t \<noteq> [] \<and> (\<forall>c \<in> set t. isdigit_char c)))"
    by (simp add: segmentation_iff trimmed_isdigit)
  have e1: "validate_rules_id ''1001,1002''" by (simp add: string_eval)
  have e2: "\<not> validate_rules_id ''1001,abc''" by (simp add: string_eval)
  from general e1 e2 show ?thesis by (intro conjI)
qed

theorem rules_id_accepts_iff_witness:
  "segmentation CHR '','' ''7, 42 '' [''7'', '' 42 '']
   \<and> (\<exists>l t r. ''7'' = l @ t @ r \<and> (\<forall>c \<in> set l. isspace c)
           \<and> (\<forall>c \<in> set r. isspace c) \<and> t \<noteq> [] \<and> (\<forall>c \<in> set t. isdigit_char c))
   \<and> (\<exists>l t r. '' 42 '' = l @ t @ r \<and> (\<forall>c \<in> set l. isspace c)
           \<and> (\<forall>c \<in> set r. isspace c) \<and> t \<noteq> [] \<and> (\<forall>c \<in> set t. isdigit_char c))"
proof -
  have v: "validate_rules_id ''7, 42 ''" by (simp add: string_eval)
  have s: "segmentation CHR '','' ''7, 42 '' [''7'', '' 42 '']"
    by (simp add: segmentation_def)
  note main = conjunct1 [OF rules_id_accepts_iff [of "''7, 42 ''"]]
  note every = conjunct2 [OF iffD1 [OF main v]]
  note each = mp [OF spec [OF every] s]
  have g1: "\<exists>l t r. ''7'' = l @ t @ r \<and> (\<forall>c \<in> set l. isspace c)
           \<and> (\<forall>c \<in> set r. isspace c) \<and> t \<noteq> [] \<and> (\<forall>c \<in> set t. isdigit_char c)"
    by (rule bspec [OF each]) simp
  have g2: "\<exists>l t r. '' 42 '' = l @ t @ r \<and> (\<forall>c \<in> set l. isspace c)
           \<and> (\<forall>c \<in> set r. isspace c) \<and> t \<noteq> [] \<and> (\<forall>c \<in> set t. isdigit_char c)"
    by (rule bspec [OF each]) simp
  from s g1 g2 show ?thesis by (intro conjI)
qed

section \<open>Normalisation at load time\<close>

text \<open>
  C5. A root with more than one direct \<open>ossec_config\<close> child keeps exactly one after
  \<open>organize_ossec_config\<close>: the first, in its place, holding its own children followed
  by the children of the later blocks, block after block and each block's children in
  their order; the other children of the root keep their order. With no or one such
  child the tree is returned as it is.
\<close>

theorem organize_ossec_config_merges:
  "(length (filter (\<lambda>c. tag c = ''ossec_config'') (children root)) \<le> 1
      \<longrightarrow> organize_ossec_config root = root)
   \<and> (1 < length (filter (\<lambda>c. tag c = ''ossec_config'') (children root))
      \<longrightarrow> (\<exists>pre p suf.
            children root = pre @ p # suf
          \<and> (\<forall>c \<in> set pre. tag c \<noteq> ''ossec_config'') \<and> tag p = ''ossec_config''
          \<and> organize_ossec_config root =
              Elem (tag root) (etext root)
                (pre @ merged_block p suf # filter (\<lambda>c. tag c \<noteq> ''ossec_config'') suf)
          \<and> filter (\<lambda>c. tag c = ''ossec_config'') (children (organize_ossec_config root))
              = [merged_block p suf]))"
proof (intro conjI impI)
  assume "length (filter (\<lambda>c. tag c = ''ossec_config'') (children root)) \<le> 1"
  then show "organize_ossec_config root = root" by (rule organize_noop)
next
  let ?oc = "\<lambda>c. tag c = ''ossec_config''"
  assume many: "1 < length (filter ?oc (children root))"
  then have "filter ?oc (children root) \<noteq> []" by auto
  then have "\<exists>c \<in> set (children root). ?oc c"
    by (simp add: filter_empty_conv)
  then obtain pre p suf where cs: "children root = pre @ p # suf"
    and p: "?oc p" and pre: "\<forall>c \<in> set pre. \<not> ?oc c"
    using split_list_first_prop [of "children root" ?oc] by blast
  from pre have "filter ?oc pre = []" by (simp add: filter_empty_conv)
  with many cs p have more: "filter ?oc suf \<noteq> []" by auto
  have org: "organize_ossec_config root =
      Elem (tag root) (etext root) (pre @ merged_block p suf # filter (\<lambda>c. tag c \<noteq> ''ossec_config'') suf)"
    unfolding merged_block_def using cs pre p more by (rule organize_merges)
  have one: "filter ?oc (children (organize_ossec_config root)) = [merged_block p suf]"
    using \<open>filter ?oc pre = []\<close> by (simp add: org merged_block_def)
  from cs pre p org one
  show "\<exists>pre p suf.
            children root = pre @ p # suf
          \<and> (\<forall>c \<in> set pre. tag c \<noteq> ''ossec_config'') \<and> tag p = ''ossec_config''
          \<and> organize_ossec_config root =
              Elem (tag root) (etext root)
                (pre @ merged_block p suf # filter (\<lambda>c. tag c \<noteq> ''ossec_config'') suf)
          \<and> filter (\<lambda>c. tag c = ''ossec_config'') (children (organize_ossec_config root))
              = [merged_block p suf]"
    by blast
qed

theorem organize_ossec_config_merges_witness:
  "1 < length (filter (\<lambda>c. tag c = ''ossec_config'') (children three_blocks))
   \<and> (\<exists>pre p suf.
            children three_blocks = pre @ p # suf
          \<and> (\<forall>c \<in> set pre. tag c \<noteq> ''ossec_config'') \<and> tag p = ''ossec_config''
          \<and> organize_ossec_config three_blocks =
              Elem (tag three_blocks) (etext three_blocks)
                (pre @ merged_block p suf # filter (\<lambda>c. tag c \<noteq> ''ossec_config'') suf)
          \<and> filter (\<lambda>c. tag c = ''ossec_config'') (children (organize_ossec_config three_blocks))
              = [merged_block p suf])
   \<and> organize_ossec_config three_blocks =
       Elem ''root'' None
         [Elem ''note'' None [],
          Elem ''ossec_config'' None
            [Elem ''global'' None [], Elem ''command'' None [], Elem ''syscheck'' None [],
             Elem ''rootcheck'' None []],
          Elem ''extra'' None []]
   \<and> length (filter (\<lambda>c. tag c = ''ossec_config'') (children (Elem ''root'' None [Elem ''ossec_config'' None []]))) \<le> 1
   \<and> organize_ossec_config (Elem ''root'' None [Elem ''ossec_config'' None []])
        = Elem ''root'' None [Elem ''ossec_config'' None []]"
proof -
  have many: "1 < length (filter (\<lambda>c. tag c = ''ossec_config'') (children three_blocks))"
    by (simp add: three_blocks_def)
  note merged = mp [OF conjunct2 [OF organize_ossec_config_merges [of three_blocks]] many]
  have result: "organize_ossec_config three_blocks =
       Elem ''root'' None
         [Elem ''note'' None [],
          Elem ''ossec_config'' None
            [Elem ''global'' None [], Elem ''command'' None [], Elem ''syscheck'' None [],
             Elem ''rootcheck'' None []],
          Elem ''extra'' None []]"
    by (simp add: three_blocks_def organize_ossec_config_def findall_def delete_nth_def
        append_child_def)
  have single: "length (filter (\<lambda>c. tag c = ''ossec_config'')
      (children (Elem ''root'' None [Elem ''ossec_config'' None []]))) \<le> 1"
    by simp
  note same = mp [OF conjunct1 [OF organize_ossec_config_merges] single]
  from many merged result single same show ?thesis by (intro conjI)
qed

section \<open>Construction\<close>

text \<open>
  C3. Constructing the manager over a document in which some active response has a
  command field that names no existing command fails with the error of
  \<open>_validate_commands\<close>, which names the command text of such an active response; when
  every active response's command names an existing command, construction succeeds and
  yields the normalised document. \<open>dangling_references\<close> is taken on the document as
  parsed: normalisation moves elements and changes neither the active responses nor the
  commands. No mutation raises this error, none re-validates: \<open>update_active_response\<close>
  can point an active response to a command that does not exist and return \<open>True\<close>.
\<close>

theorem construct_checks_references:
  "(dangling_references parsed = [] \<longrightarrow> construct parsed = Inr (organize_ossec_config parsed))
   \<and> (dangling_references parsed \<noteq> [] \<longrightarrow>
        (\<exists>c \<in> set (dangling_references parsed). construct parsed = Inl (MissingCommand c)))
   \<and> add_command n ex ta root \<noteq> Inl (MissingCommand c)
   \<and> add_active_response cmd loc lvl tmo aid grp rid root \<noteq> Inl (MissingCommand c)
   \<and> update_active_response cmd updates root \<noteq> Inl (MissingCommand c)
   \<and> remove_active_response cmd root \<noteq> Inl (MissingCommand c)
   \<and> remove_command n root \<noteq> Inl (MissingCommand c)
   \<and> update_active_response ''custom-block'' [(''command'', PStr ''ghost'')] (with_response ''300'')
        = Inr (True, ghosted)
   \<and> dangling_references ghosted = [Some ''ghost'']"
proof -
  let ?d = "dangling_references (organize_ossec_config parsed)"
  have sound: "dangling_references parsed = [] \<longrightarrow> construct parsed = Inr (organize_ossec_config parsed)"
  proof
    assume "dangling_references parsed = []"
    then have "set ?d = {}" by (simp add: dangling_organize)
    then show "construct parsed = Inr (organize_ossec_config parsed)"
      by (simp add: construct_first)
  qed
  have broken: "dangling_references parsed \<noteq> [] \<longrightarrow>
        (\<exists>c \<in> set (dangling_references parsed). construct parsed = Inl (MissingCommand c))"
  proof
    assume "dangling_references parsed \<noteq> []"
    then have "set ?d \<noteq> {}" by (simp add: dangling_organize)
    then obtain c cs where d: "?d = c # cs" by (cases ?d) auto
    then have "c \<in> set ?d" by simp
    then have "c \<in> set (dangling_references parsed)" by (simp add: dangling_organize)
    moreover have "construct parsed = Inl (MissingCommand c)"
      by (simp add: construct_first d)
    ultimately show "\<exists>c \<in> set (dangling_references parsed). construct parsed = Inl (MissingCommand c)"
      by blast
  qed
  from sound broken mutations_never_missing_command ghost_update ghost_dangling
  show ?thesis by (intro conjI)
qed

theorem construct_checks_references_witness:
  "dangling_references (with_response ''300'') = []
   \<and> construct (with_response ''300'') = Inr (with_response ''300'')
   \<and> dangling_references ghosted \<noteq> []
   \<and> construct ghosted = Inl (MissingCommand (Some ''ghost''))"
proof -
  note sound = mp [OF conjunct1 [OF construct_checks_references] response_sound]
  have same: "organize_ossec_config (with_response ''300'') = with_response ''300''"
    by (simp add: organize_ossec_config_def findall_def example_docs)
  have d: "dangling_references ghosted \<noteq> []" by (simp add: ghost_dangling)
  from mp [OF conjunct1 [OF conjunct2 [OF construct_checks_references]] d]
  have broken: "construct ghosted = Inl (MissingCommand (Some ''ghost''))"
    by (simp add: ghost_dangling)
  from response_sound sound same d broken show ?thesis by simp
qed

section \<open>Adding an active response\<close>

text \<open>
  C4. Whenever a validation of \<open>add_active_response\<close> fails (the command does not exist,
  the location is none of the four, the location is \<open>defined-agent\<close> without an agent id,
  or a supplied level, rules group or rules id is invalid) the call returns \<open>False\<close> and
  the document is the one it was given. Whenever it returns \<open>True\<close> it has appended one
  \<open>active-response\<close> node to the first \<open>ossec_config\<close> block, whose children are leaves:
  the command, the location, and one leaf for each optional argument that was supplied,
  none for the others. With every validation passed and an \<open>ossec_config\<close> block in the
  document the call does return \<open>True\<close> (without such a block \<open>ET.SubElement\<close> raises).
  With location \<open>defined-agent\<close> and no agent id the call returns \<open>False\<close> on every
  document.
\<close>

theorem add_active_response_outcomes:
  "(rejected command location level agent_id rules_group rules_id root \<longrightarrow>
      add_active_response command location level timeout agent_id rules_group rules_id root
        = Inr (False, root))
   \<and> (add_active_response command location level timeout agent_id rules_group rules_id root
        = Inr (True, root') \<longrightarrow>
      (\<exists>i node. find_idx ''ossec_config'' (children root) = Some i
         \<and> root' = with_appended i node root
         \<and> tag node = ''active-response''
         \<and> (\<forall>c \<in> set (children node). children c = [])
         \<and> map (\<lambda>c. (tag c, etext c)) (children node)
             = [(''command'', Some command), (''location'', Some location)]
               @ (case level of None \<Rightarrow> [] | Some l \<Rightarrow> [(''level'', Some (str_int l))])
               @ (case timeout of None \<Rightarrow> [] | Some t \<Rightarrow> [(''timeout'', Some (str_int t))])
               @ (case agent_id of None \<Rightarrow> [] | Some a \<Rightarrow> [(''agent_id'', Some a)])
               @ (case rules_group of None \<Rightarrow> [] | Some g \<Rightarrow> [(''rules_group'', Some g)])
               @ (case rules_id of None \<Rightarrow> [] | Some s \<Rightarrow> [(''rules_id'', Some s)])))
   \<and> (\<not> rejected command location level agent_id rules_group rules_id root
        \<and> find_idx ''ossec_config'' (children root) \<noteq> None \<longrightarrow>
        (\<exists>root'. add_active_response command location level timeout agent_id rules_group rules_id root
            = Inr (True, root')))
   \<and> add_active_response command ''defined-agent'' level timeout None rules_group rules_id root
        = Inr (False, root)"
proof (intro conjI impI)
  assume "rejected command location level agent_id rules_group rules_id root"
  then show "add_active_response command location level timeout agent_id rules_group rules_id root
        = Inr (False, root)"
    by (rule add_active_response_rejected)
next
  let ?node = "new_ar command location level timeout agent_id rules_group rules_id"
  assume ok: "add_active_response command location level timeout agent_id rules_group rules_id root
        = Inr (True, root')"
  then have "\<not> rejected command location level agent_id rules_group rules_id root"
    using add_active_response_rejected [of command location level agent_id rules_group rules_id root timeout]
    by auto
  from add_active_response_accepted [OF this, of timeout] ok
  obtain i where i: "find_idx ''ossec_config'' (children root) = Some i"
    and root': "root' = with_appended i ?node root"
    by (auto split: option.splits)
  have t: "tag ?node = ''active-response''" by (simp add: new_ar_def)
  have l: "\<forall>c \<in> set (children ?node). children c = []" using new_ar_leaves by blast
  note f = new_ar_fields [of command location level timeout agent_id rules_group rules_id]
  from i root' t l f
  show "\<exists>i node. find_idx ''ossec_config'' (children root) = Some i
         \<and> root' = with_appended i node root
         \<and> tag node = ''active-response''
         \<and> (\<forall>c \<in> set (children node). children c = [])
         \<and> map (\<lambda>c. (tag c, etext c)) (children node)
             = [(''command'', Some command), (''location'', Some location)]
               @ (case level of None \<Rightarrow> [] | Some l \<Rightarrow> [(''level'', Some (str_int l))])
               @ (case timeout of None \<Rightarrow> [] | Some t \<Rightarrow> [(''timeout'', Some (str_int t))])
               @ (case agent_id of None \<Rightarrow> [] | Some a \<Rightarrow> [(''agent_id'', Some a)])
               @ (case rules_group of None \<Rightarrow> [] | Some g \<Rightarrow> [(''rules_group'', Some g)])
               @ (case rules_id of None \<Rightarrow> [] | Some s \<Rightarrow> [(''rules_id'', Some s)])"
    by blast
next
  assume "\<not> rejected command location level agent_id rules_group rules_id root
        \<and> find_idx ''ossec_config'' (children root) \<noteq> None"
  then show "\<exists>root'. add_active_response command location level timeout agent_id rules_group rules_id root
            = Inr (True, root')"
    using add_active_response_accepted [of command location level agent_id rules_group rules_id root timeout]
    by auto
next
  have "rejected command ''defined-agent'' level None rules_group rules_id root"
    by (simp add: rejected_def)
  then show "add_active_response command ''defined-agent'' level timeout None rules_group rules_id root
        = Inr (False, root)"
    by (rule add_active_response_rejected)
qed

theorem add_active_response_outcomes_witness:
  "rejected ''custom-block'' ''everywhere'' None None None None with_command
   \<and> add_active_response ''custom-block'' ''everywhere'' None None None None None with_command
       = Inr (False, with_command)
   \<and> \<not> rejected ''custom-block'' ''local'' (Some 10) None None (Some ''1001,1002,1003'') with_command
   \<and> find_idx ''ossec_config'' (children with_command) \<noteq> None
   \<and> add_active_response ''custom-block'' ''local'' (Some 10) (Some 300) None None
         (Some ''1001,1002,1003'') with_command = Inr (True, with_response ''300'')
   \<and> (\<exists>i node. find_idx ''ossec_config'' (children with_command) = Some i
         \<and> with_response ''300'' = with_appended i node with_command
         \<and> map (\<lambda>c. (tag c, etext c)) (children node)
             = [(''command'', Some ''custom-block''), (''location'', Some ''local''),
                (''level'', Some ''10''), (''timeout'', Some ''300''),
                (''rules_id'', Some ''1001,1002,1003'')])"
proof -
  have r: "rejected ''custom-block'' ''everywhere'' None None None None with_command"
    by (simp add: rejected_def)
  note refused = mp [OF conjunct1 [OF add_active_response_outcomes] r]
  have ok: "\<not> rejected ''custom-block'' ''local'' (Some 10) None None (Some ''1001,1002,1003'') with_command"
    by (simp add: rejected_def example_docs tree_eval string_eval)
  have block: "find_idx ''ossec_config'' (children with_command) \<noteq> None"
    by (simp add: example_docs)
  have added: "add_active_response ''custom-block'' ''local'' (Some 10) (Some 300) None None
         (Some ''1001,1002,1003'') with_command = Inr (True, with_response ''300'')"
    by (simp add: add_active_response_def new_ar_def optional_leaf_def location_types_def
        example_docs tree_eval value_eval string_eval)
  from mp [OF conjunct1 [OF conjunct2 [OF add_active_response_outcomes]] added]
  obtain i node where i: "find_idx ''ossec_config'' (children with_command) = Some i"
    and w: "with_response ''300'' = with_appended i node with_command"
    and m: "map (\<lambda>c. (tag c, etext c)) (children node)
             = [(''command'', Some ''custom-block''), (''location'', Some ''local'')]
               @ (case Some (10 :: int) of None \<Rightarrow> [] | Some l \<Rightarrow> [(''level'', Some (str_int l))])
               @ (case Some (300 :: int) of None \<Rightarrow> [] | Some t \<Rightarrow> [(''timeout'', Some (str_int t))])
               @ (case None of None \<Rightarrow> [] | Some a \<Rightarrow> [(''agent_id'', Some a)])
               @ (case None of None \<Rightarrow> [] | Some g \<Rightarrow> [(''rules_group'', Some g)])
               @ (case Some ''1001,1002,1003'' of None \<Rightarrow> [] | Some s \<Rightarrow> [(''rules_id'', Some s)])"
    by blast
  from m have m': "map (\<lambda>c. (tag c, etext c)) (children node)
             = [(''command'', Some ''custom-block''), (''location'', Some ''local''),
                (''level'', Some ''10''), (''timeout'', Some ''300''),
                (''rules_id'', Some ''1001,1002,1003'')]"
    by (simp add: value_eval)
  have node: "\<exists>i node. find_idx ''ossec_config'' (children with_command) = Some i
         \<and> with_response ''300'' = with_appended i node with_command
         \<and> map (\<lambda>c. (tag c, etext c)) (children node)
             = [(''command'', Some ''custom-block''), (''location'', Some ''local''),
                (''level'', Some ''10''), (''timeout'', Some ''300''),
                (''rules_id'', Some ''1001,1002,1003'')]"
    by (rule exI [where x = i], rule exI [where x = node], intro conjI) (rule i, rule w, rule m')
  from r refused [of None] ok block added node show ?thesis by (intro conjI)
qed

section \<open>Adding a command twice\<close>

text \<open>
  C8. When a call of \<open>add_command\<close> returns \<open>True\<close> it has appended the command node, with
  its three leaves, to the first \<open>ossec_config\<close> block, and a second call with the same
  name, whatever its executable and flag, returns \<open>False\<close> without raising and leaves the
  document as the first call left it. The first call returns \<open>True\<close> whenever the name is
  not taken and the document has an \<open>ossec_config\<close> block.
\<close>

theorem add_command_twice:
  "(add_command name executable timeout_allowed root = Inr (True, root1) \<longrightarrow>
      (\<exists>i. find_idx ''ossec_config'' (children root) = Some i
         \<and> root1 = with_appended i
              (Elem ''command'' None
                 [Elem ''name'' (Some name) [],
                  Elem ''executable'' (Some executable) [],
                  Elem ''timeout_allowed'' (Some (if timeout_allowed then ''yes'' else ''no'')) []])
              root)
      \<and> add_command name executable2 timeout_allowed2 root1 = Inr (False, root1))
   \<and> (\<not> command_exists (Some name) root \<and> find_idx ''ossec_config'' (children root) \<noteq> None \<longrightarrow>
        (\<exists>root1. add_command name executable timeout_allowed root = Inr (True, root1)))"
proof (intro conjI impI)
  assume first: "add_command name executable timeout_allowed root = Inr (True, root1)"
  then show "\<exists>i. find_idx ''ossec_config'' (children root) = Some i
         \<and> root1 = with_appended i
              (Elem ''command'' None
                 [Elem ''name'' (Some name) [],
                  Elem ''executable'' (Some executable) [],
                  Elem ''timeout_allowed'' (Some (if timeout_allowed then ''yes'' else ''no'')) []])
              root"
    by (auto simp: add_command_def modify_append_child new_command_def
        simp del: modify_at.simps split: if_splits option.splits)
  from add_command_then_exists [OF first]
  show "add_command name executable2 timeout_allowed2 root1 = Inr (False, root1)"
    by (simp add: add_command_def)
next
  assume "\<not> command_exists (Some name) root \<and> find_idx ''ossec_config'' (children root) \<noteq> None"
  then show "\<exists>root1. add_command name executable timeout_allowed root = Inr (True, root1)"
    by (auto simp: add_command_def)
qed

theorem add_command_twice_witness:
  "add_command ''custom-block'' ''custom-block.sh'' True empty_config = Inr (True, with_command)
   \<and> with_command = with_appended 0 custom_block_command empty_config
   \<and> add_command ''custom-block'' ''other.sh'' False with_command = Inr (False, with_command)
   \<and> \<not> command_exists (Some ''custom-block'') empty_config
   \<and> find_idx ''ossec_config'' (children empty_config) \<noteq> None"
proof -
  have first: "add_command ''custom-block'' ''custom-block.sh'' True empty_config = Inr (True, with_command)"
    by (simp add: add_command_def new_command_def example_docs tree_eval)
  note twice = mp [OF conjunct1 [OF add_command_twice] first]
  have shape: "with_command = with_appended 0 custom_block_command empty_config"
    by (simp add: with_appended_def example_docs)
  have free: "\<not> command_exists (Some ''custom-block'') empty_config"
    by (simp add: example_docs tree_eval)
  have block: "find_idx ''ossec_config'' (children empty_config) \<noteq> None"
    by (simp add: example_docs)
  from first shape conjunct2 [OF twice, of "''other.sh''" False] free block
  show ?thesis by (intro conjI)
qed

section \<open>Commands at any depth\<close>

text \<open>
  C10. \<open>get_commands\<close> has one entry for each descendant named \<open>command\<close>, at any depth.
  For every active response of the document and every child of it that is a \<open>command\<close>
  leaf, the entry at the position of that leaf among the matches is the empty mapping.
  \<open>command_exists\<close> looks at the matches that have children only: a leaf has no \<open>name\<close>
  child.
\<close>

theorem get_commands_lists_response_leaves:
  "((p, ar) \<in> set (findall_desc ''active-response'' root) \<and> i < length (children ar)
      \<and> tag (children ar ! i) = ''command'' \<and> children (children ar ! i) = []
     \<longrightarrow> (\<exists>k < length (get_commands root).
            findall_desc ''command'' root ! k = (p @ [i], children ar ! i)
          \<and> get_commands root ! k = []))
   \<and> length (get_commands root) = length (findall_desc ''command'' root)
   \<and> (command_exists name root \<longleftrightarrow>
        (\<exists>(q, c) \<in> set (findall_desc ''command'' root).
            children c \<noteq> [] \<and> has_field_text ''name'' name c))"
proof (intro conjI impI)
  assume a: "(p, ar) \<in> set (findall_desc ''active-response'' root) \<and> i < length (children ar)
      \<and> tag (children ar ! i) = ''command'' \<and> children (children ar ! i) = []"
  let ?leaf = "children ar ! i"
  from a have "(p, ar) \<in> set (iter_list [] 0 (children root))" by (simp add: in_findall_desc)
  with a have "(p @ [i], ?leaf) \<in> set (iter_list [] 0 (children root))"
    using iter_child_closed(2) by blast
  with a have "(p @ [i], ?leaf) \<in> set (findall_desc ''command'' root)"
    by (simp add: in_findall_desc)
  then obtain k where k: "k < length (findall_desc ''command'' root)"
    and at: "findall_desc ''command'' root ! k = (p @ [i], ?leaf)"
    by (auto simp: in_set_conv_nth)
  from a have "fields_of ?leaf = []" by (simp add: fields_of_def)
  with k at have "get_commands root ! k = []" by (simp add: get_commands_def)
  with k at show "\<exists>k < length (get_commands root).
            findall_desc ''command'' root ! k = (p @ [i], ?leaf) \<and> get_commands root ! k = []"
    by (auto simp: get_commands_def)
next
  show "length (get_commands root) = length (findall_desc ''command'' root)"
    by (simp add: get_commands_def)
next
  have "has_field_text ''name'' name c \<Longrightarrow> children c \<noteq> []" for c
    by (auto simp: has_field_text_def find_child_def)
  then show "command_exists name root \<longleftrightarrow>
        (\<exists>(q, c) \<in> set (findall_desc ''command'' root).
            children c \<noteq> [] \<and> has_field_text ''name'' name c)"
    unfolding command_exists_iff by blast
qed

theorem get_commands_lists_response_leaves_witness:
  "([0, 1], custom_block_response ''300'') \<in> set (findall_desc ''active-response'' (with_response ''300''))
   \<and> tag (children (custom_block_response ''300'') ! 0) = ''command''
   \<and> children (children (custom_block_response ''300'') ! 0) = []
   \<and> (\<exists>k < length (get_commands (with_response ''300'')).
         findall_desc ''command'' (with_response ''300'') ! k
           = ([0, 1] @ [0], children (custom_block_response ''300'') ! 0)
       \<and> get_commands (with_response ''300'') ! k = [])
   \<and> get_commands (with_response ''300'') =
       [[(''name'', Some ''custom-block''), (''executable'', Some ''custom-block.sh''),
         (''timeout_allowed'', Some ''yes'')], []]"
proof -
  have a: "([0, 1], custom_block_response ''300'') \<in> set (findall_desc ''active-response'' (with_response ''300''))"
    by (simp add: example_docs tree_eval)
  have b: "0 < length (children (custom_block_response ''300''))"
    "tag (children (custom_block_response ''300'') ! 0) = ''command''"
    "children (children (custom_block_response ''300'') ! 0) = []"
    by (simp_all add: example_docs)
  note entry = mp [OF conjunct1 [OF get_commands_lists_response_leaves
        [of "[0, 1]" "custom_block_response ''300''" "with_response ''300''" 0]]]
  have e: "\<exists>k < length (get_commands (with_response ''300'')).
         findall_desc ''command'' (with_response ''300'') ! k
           = ([0, 1] @ [0], children (custom_block_response ''300'') ! 0)
       \<and> get_commands (with_response ''300'') ! k = []"
    by (rule entry) (intro conjI a b)
  have g: "get_commands (with_response ''300'') =
       [[(''name'', Some ''custom-block''), (''executable'', Some ''custom-block.sh''),
         (''timeout_allowed'', Some ''yes'')], []]"
    by (simp add: get_commands_def example_docs tree_eval)
  from a b(2,3) e g show ?thesis by (intro conjI)
qed

section \<open>Mutations that raise, updates that stop half way\<close>

text \<open>
  C1. On the document with one empty \<open>ossec_config\<close> block, \<open>add_command\<close> and
  \<open>add_active_response\<close> succeed and both entities are listed. The active response is a
  child of the \<open>ossec_config\<close> block, not of the root, so \<open>self.root.remove(ar)\<close> in
  \<open>remove_active_response\<close> raises \<open>ValueError\<close>: the call returns nothing and removes
  nothing.
\<close>

theorem remove_active_response_raises:
  "add_command ''custom-block'' ''custom-block.sh'' True empty_config = Inr (True, with_command)
   \<and> add_active_response ''custom-block'' ''local'' (Some 10) (Some 300) None None
         (Some ''1001,1002,1003'') with_command = Inr (True, with_response ''300'')
   \<and> get_commands (with_response ''300'') =
       [[(''name'', Some ''custom-block''), (''executable'', Some ''custom-block.sh''),
         (''timeout_allowed'', Some ''yes'')], []]
   \<and> get_active_responses (with_response ''300'') =
       [[(''command'', Some ''custom-block''), (''location'', Some ''local''),
         (''level'', Some ''10''), (''timeout'', Some ''300''),
         (''rules_id'', Some ''1001,1002,1003'')]]
   \<and> remove_active_response ''custom-block'' (with_response ''300'') = Inl ValueError"
proof -
  have 1: "add_command ''custom-block'' ''custom-block.sh'' True empty_config = Inr (True, with_command)"
    by (simp add: add_command_def new_command_def example_docs tree_eval)
  have 2: "add_active_response ''custom-block'' ''local'' (Some 10) (Some 300) None None
         (Some ''1001,1002,1003'') with_command = Inr (True, with_response ''300'')"
    by (simp add: add_active_response_def new_ar_def optional_leaf_def location_types_def
        example_docs tree_eval value_eval string_eval)
  have 3: "get_commands (with_response ''300'') =
       [[(''name'', Some ''custom-block''), (''executable'', Some ''custom-block.sh''),
         (''timeout_allowed'', Some ''yes'')], []]"
    by (simp add: get_commands_def example_docs tree_eval)
  have 4: "get_active_responses (with_response ''300'') =
       [[(''command'', Some ''custom-block''), (''location'', Some ''local''),
         (''level'', Some ''10''), (''timeout'', Some ''300''),
         (''rules_id'', Some ''1001,1002,1003'')]]"
    by (simp add: get_active_responses_def example_docs tree_eval)
  have 5: "remove_active_response ''custom-block'' (with_response ''300'') = Inl ValueError"
    by (simp add: remove_active_response_def example_docs tree_eval)
  from 1 2 3 4 5 show ?thesis by (intro conjI)
qed

text \<open>
  C2. Mutations on an existing entity raise: \<open>update_active_response\<close> with a level that
  is no decimal literal (\<open>int(value)\<close> raises \<open>ValueError\<close>), \<open>remove_command\<close> on a command
  inside the \<open>ossec_config\<close> block (\<open>Element.remove\<close> raises \<open>ValueError\<close>), and
  \<open>update_active_response\<close> with a non-zero integer as rules group (\<open>AttributeError\<close>).
\<close>

theorem mutations_raise:
  "update_active_response ''custom-block'' [(''level'', PStr ''high'')] (with_response ''300'')
     = Inl ValueError
   \<and> remove_command ''custom-block'' (with_response ''300'') = Inl ValueError
   \<and> update_active_response ''custom-block'' [(''rules_group'', PInt 7)] (with_response ''300'')
     = Inl AttributeError"
proof -
  have 1: "update_active_response ''custom-block'' [(''level'', PStr ''high'')] (with_response ''300'')
     = Inl ValueError"
    by (simp add: update_active_response_def example_docs tree_eval value_eval string_eval)
  have 2: "remove_command ''custom-block'' (with_response ''300'') = Inl ValueError"
    by (simp add: remove_command_def example_docs tree_eval)
  have 3: "update_active_response ''custom-block'' [(''rules_group'', PInt 7)] (with_response ''300'')
     = Inl AttributeError"
    by (simp add: update_active_response_def example_docs tree_eval)
  from 1 2 3 show ?thesis by (intro conjI)
qed

text \<open>
  C9. \<open>update_active_response\<close> validates a field when it reaches it. With a valid
  timeout ordered before an invalid level, rules group or rules id, the call returns
  \<open>False\<close> and the document it leaves differs from the one it was given: the timeout is
  already written.
\<close>

theorem update_active_response_not_atomic:
  "active_response_exists ''custom-block'' (with_response ''300'')
   \<and> update_active_response ''custom-block'' [(''timeout'', PInt 600), (''level'', PStr ''17'')]
       (with_response ''300'') = Inr (False, with_response ''600'')
   \<and> update_active_response ''custom-block'' [(''timeout'', PInt 600), (''rules_group'', PStr ''web'')]
       (with_response ''300'') = Inr (False, with_response ''600'')
   \<and> update_active_response ''custom-block'' [(''timeout'', PInt 600), (''rules_id'', PStr ''100x'')]
       (with_response ''300'') = Inr (False, with_response ''600'')
   \<and> with_response ''600'' \<noteq> with_response ''300''"
proof -
  have 0: "active_response_exists ''custom-block'' (with_response ''300'')"
    by (simp add: example_docs tree_eval)
  have 1: "update_active_response ''custom-block'' [(''timeout'', PInt 600), (''level'', PStr ''17'')]
       (with_response ''300'') = Inr (False, with_response ''600'')"
    by (simp add: update_active_response_def example_docs tree_eval value_eval string_eval)
  have 2: "update_active_response ''custom-block'' [(''timeout'', PInt 600), (''rules_group'', PStr ''web'')]
       (with_response ''300'') = Inr (False, with_response ''600'')"
    by (simp add: update_active_response_def example_docs tree_eval value_eval string_eval)
  have 3: "update_active_response ''custom-block'' [(''timeout'', PInt 600), (''rules_id'', PStr ''100x'')]
       (with_response ''300'') = Inr (False, with_response ''600'')"
    by (simp add: update_active_response_def example_docs tree_eval value_eval string_eval)
  have 4: "with_response ''600'' \<noteq> with_response ''300''"
    by (simp add: example_docs)
  from 0 1 2 3 4 show ?thesis by (intro conjI)
qed

end
